theory Spec2Isabelle
  imports Complex_Main "HOL-Library.Word"
begin

section \<open>Data model of kompresiRLe.py\<close>

text \<open>
  The program keeps images as numpy arrays of unsigned bytes: a colour image has shape
  (height, width, channels), a grey image shape (height, width). Arithmetic on such
  arrays stays in the byte type, so it wraps modulo 256; samples are therefore 8-bit
  words. Arrays of float32 (blocks, coefficients, quantization matrices) are modelled
  over the reals.
\<close>

type_synonym sample = "8 word"
type_synonym plane = "sample list list"
type_synonym matrix = "real list list"

datatype ndarray = Arr2 plane | Arr3 "sample list list list"

datatype py_error = ValueError | ZeroDivisionError | AttributeError | CvError

text \<open>A Python float as far as the metrics need it: a real number, infinity, or nan.\<close>

datatype pyfloat = Fin real | PInf | NaN

datatype status = Ready | Applying | Completed | Failed

text \<open>
  The functions of OpenCV that the program calls are not part of the repository. They
  are parameters of the model: the two block transforms (which may raise), the bilinear
  resize of the 4x4 base table, and the three colour conversions, given per pixel.
\<close>

record cv2 =
  dct :: "matrix \<Rightarrow> py_error + matrix"
  idct :: "matrix \<Rightarrow> py_error + matrix"
  resize :: "matrix \<Rightarrow> nat \<Rightarrow> matrix"
  bgr2ycrcb :: "sample \<times> sample \<times> sample \<Rightarrow> sample \<times> sample \<times> sample"
  ycrcb2bgr :: "sample \<times> sample \<times> sample \<Rightarrow> sample \<times> sample \<times> sample"
  bgr2gray :: "sample \<times> sample \<times> sample \<Rightarrow> sample"

text \<open>The fields of the application object that the processing core reads and writes.\<close>

record app =
  original_image :: "ndarray option"
  processed_image :: "ndarray option"
  dct_coefficients :: "matrix list list"
  psnr_value :: pyfloat
  compression_ratio :: real
  compression_level :: int
  progress_var :: "real list"
  status_message :: status

section \<open>Quantization matrices\<close>

definition np_clip :: "real \<Rightarrow> real \<Rightarrow> real \<Rightarrow> real" where
  "np_clip v lo hi = min (max v lo) hi"

definition jpeg_luminance :: matrix where
  "jpeg_luminance =
    [[16, 11, 10, 16, 24, 40, 51, 61],
     [12, 12, 14, 19, 26, 58, 60, 55],
     [14, 13, 16, 24, 40, 57, 69, 56],
     [14, 17, 22, 29, 51, 87, 80, 62],
     [18, 22, 37, 56, 68, 109, 103, 77],
     [24, 35, 55, 64, 81, 104, 113, 92],
     [49, 64, 78, 87, 103, 121, 120, 101],
     [72, 92, 95, 98, 112, 100, 103, 99]]"

definition base_q :: matrix where
  "base_q =
    [[16, 11, 10, 16],
     [12, 12, 14, 19],
     [14, 13, 16, 24],
     [14, 17, 22, 29]]"

definition create_jpeg_quantization_matrix :: "cv2 \<Rightarrow> nat \<Rightarrow> matrix" where
  "create_jpeg_quantization_matrix cv sz =
    (if sz = 8 then jpeg_luminance
     else map (map (\<lambda>v. np_clip v 1 255)) (resize cv base_q sz))"

definition create_custom_quantization_matrix :: "nat \<Rightarrow> matrix" where
  "create_custom_quantization_matrix sz =
    map (\<lambda>i. map (\<lambda>j.
        let distance = sqrt (real (i ^ 2 + j ^ 2));
            normalized = distance / sqrt (real (2 * sz ^ 2))
        in 1 + normalized * 50) [0..<sz]) [0..<sz]"

definition np_ones :: "nat \<Rightarrow> matrix" where
  "np_ones sz = replicate sz (replicate sz 1)"

text \<open>The choice of the matrix at the head of \<open>process_channel_dct\<close>, before scaling.\<close>

definition select_q_matrix :: "cv2 \<Rightarrow> string \<Rightarrow> nat \<Rightarrow> matrix" where
  "select_q_matrix cv quantization block_size =
    (if quantization = ''Standard JPEG'' then create_jpeg_quantization_matrix cv block_size
     else if quantization = ''Uniform'' then np_ones block_size
     else create_custom_quantization_matrix block_size)"

definition level_scale :: "real \<Rightarrow> real" where
  "level_scale level = 1 + (1 - level) * 10"

definition scaled_q_matrix :: "cv2 \<Rightarrow> string \<Rightarrow> nat \<Rightarrow> real \<Rightarrow> matrix" where
  "scaled_q_matrix cv quantization block_size level =
    map (map (\<lambda>v. v * level_scale level))
      (select_q_matrix cv quantization block_size)"

section \<open>Metrics\<close>

fun samples :: "ndarray \<Rightarrow> sample list" where
  "samples (Arr2 p) = concat p"
| "samples (Arr3 px) = concat (concat px)"

fun shape :: "ndarray \<Rightarrow> nat list" where
  "shape (Arr2 p) = [length p, (case p of [] \<Rightarrow> 0 | r # _ \<Rightarrow> length r)]"
| "shape (Arr3 px) =
    [length px,
     (case px of [] \<Rightarrow> 0 | r # _ \<Rightarrow> length r),
     (case px of [] \<Rightarrow> 0 | r # _ \<Rightarrow> (case r of [] \<Rightarrow> 0 | p # _ \<Rightarrow> length p))]"

text \<open>
  \<open>(a - b) ** 2\<close> on two byte arrays: both the difference and the square are bytes.
  \<open>np.mean\<close> then averages the bytes as floats.
\<close>

definition squared_diff :: "sample \<Rightarrow> sample \<Rightarrow> sample" where
  "squared_diff a b = (a - b) * (a - b)"

definition np_mean :: "sample list \<Rightarrow> real" where
  "np_mean xs = real (sum_list (map unat xs)) / real (length xs)"

definition psnr_of_mse :: "real \<Rightarrow> pyfloat" where
  "psnr_of_mse mse =
    (if mse = 0 then PInf else Fin (20 * log 10 (255 / sqrt mse)))"

definition mse_arrays :: "sample list \<Rightarrow> sample list \<Rightarrow> real" where
  "mse_arrays xs ys = np_mean (map2 squared_diff xs ys)"

fun cvt_bgr2gray :: "cv2 \<Rightarrow> ndarray \<Rightarrow> py_error + ndarray" where
  "cvt_bgr2gray cv (Arr2 p) = Inl CvError"
| "cvt_bgr2gray cv (Arr3 px) =
    (if \<forall>row \<in> set px. \<forall>p \<in> set row. length p = 3
     then Inr (Arr2 (map (map (\<lambda>p. bgr2gray cv (p ! 0, p ! 1, p ! 2))) px))
     else Inl CvError)"

definition ratio_of_level :: "int \<Rightarrow> py_error + real" where
  "ratio_of_level level =
    (let d = 1 + (100 - real_of_int level) / 100
     in if d = 0 then Inl ZeroDivisionError else Inr (1 / d))"

text \<open>
  \<open>calculate_metrics\<close>. Without an image, \<open>.shape\<close> of \<open>None\<close> raises. Arrays of
  different shape are outside the model (numpy would broadcast or raise); the program
  only compares an image with its reconstruction. The mean of an empty array is nan.
\<close>

definition psnr_pair :: "ndarray \<Rightarrow> ndarray \<Rightarrow> py_error + pyfloat" where
  "psnr_pair a b =
    (if shape a \<noteq> shape b then Inl ValueError
     else if samples a = [] then Inr NaN
     else Inr (psnr_of_mse (mse_arrays (samples a) (samples b))))"

definition calculate_metrics :: "cv2 \<Rightarrow> app \<Rightarrow> py_error + app" where
  "calculate_metrics cv s =
    (case (original_image s, processed_image s) of
       (Some orig, Some proc) \<Rightarrow>
         (case (if length (shape orig) = 3 \<and> length (shape proc) = 3
                then psnr_pair orig proc
                else (case cvt_bgr2gray cv orig of
                        Inl e \<Rightarrow> Inl e
                      | Inr og \<Rightarrow> (case cvt_bgr2gray cv proc of
                                     Inl e \<Rightarrow> Inl e
                                   | Inr pg \<Rightarrow> psnr_pair og pg))) of
            Inl e \<Rightarrow> Inl e
          | Inr p \<Rightarrow>
              (case ratio_of_level (compression_level s) of
                 Inl e \<Rightarrow> Inl e
               | Inr r \<Rightarrow> Inr (s\<lparr>psnr_value := p, compression_ratio := r\<rparr>)))
     | _ \<Rightarrow> Inl AttributeError)"

text \<open>The specification's mean squared error: differences taken as integers.\<close>

definition spec_mse :: "sample list \<Rightarrow> sample list \<Rightarrow> real" where
  "spec_mse xs ys =
    real_of_int (sum_list (map2 (\<lambda>a b. (uint a - uint b) ^ 2) xs ys)) / real (length xs)"

section \<open>The block transform codec\<close>

text \<open>\<open>range(0, stop, step)\<close> for a positive step.\<close>

definition py_range :: "nat \<Rightarrow> nat \<Rightarrow> nat list" where
  "py_range stop step = map (\<lambda>k. k * step) [0..<(stop + step - 1) div step]"

text \<open>\<open>a[y:y+n, x:x+n]\<close>: numpy clips a slice to the extent of the array.\<close>

definition slice2 :: "'a list list \<Rightarrow> nat \<Rightarrow> nat \<Rightarrow> nat \<Rightarrow> 'a list list" where
  "slice2 a y x n = map (\<lambda>row. take n (drop x row)) (take n (drop y a))"

text \<open>\<open>q_matrix[:h, :w]\<close>.\<close>

definition top_left :: "matrix \<Rightarrow> nat \<Rightarrow> nat \<Rightarrow> matrix" where
  "top_left q h w = map (take w) (take h q)"

definition shape0 :: "'a list list \<Rightarrow> nat" where
  "shape0 a = length a"

definition shape1 :: "'a list list \<Rightarrow> nat" where
  "shape1 a = (case a of [] \<Rightarrow> 0 | r # _ \<Rightarrow> length r)"

text \<open>
  \<open>np.round\<close> rounds to the nearest integer and a tie to the even neighbour.
\<close>

definition np_round :: "real \<Rightarrow> real" where
  "np_round v =
    (let f = \<lfloor>v\<rfloor>; d = v - of_int f
     in if d < 1/2 then of_int f
        else if 1/2 < d then of_int (f + 1)
        else if even f then of_int f else of_int (f + 1))"

definition astype_float32 :: "sample \<Rightarrow> real" where
  "astype_float32 v = real (unat v)"

text \<open>
  \<open>astype(np.uint8)\<close> drops the fraction (towards zero); a value outside the byte range
  wraps.
\<close>

definition astype_uint8 :: "real \<Rightarrow> sample" where
  "astype_uint8 v = word_of_int (if 0 \<le> v then \<lfloor>v\<rfloor> else \<lceil>v\<rceil>)"

definition block_at :: "plane \<Rightarrow> nat \<Rightarrow> nat \<times> nat \<Rightarrow> matrix" where
  "block_at channel block_size yx =
    map (map (\<lambda>v. astype_float32 v - 128))
      (slice2 channel (fst yx) (snd yx) block_size)"

definition quantize :: "matrix \<Rightarrow> matrix \<Rightarrow> matrix" where
  "quantize dct_block q = map2 (map2 (\<lambda>c m. np_round (c / m))) dct_block q"

definition dequantize :: "matrix \<Rightarrow> matrix \<Rightarrow> matrix" where
  "dequantize quantized q = map2 (map2 (\<lambda>v m. v * m)) quantized q"

definition add_128_clip :: "matrix \<Rightarrow> matrix" where
  "add_128_clip idct_block = map (map (\<lambda>v. np_clip (v + 128) 0 255)) idct_block"

text \<open>
  \<open>processed[y:y+n, x:x+n] = blk\<close>: every cell of the (clipped) target slice, that is
  every cell of the plane that the block at \<open>(y, x)\<close> covers, takes the entry of
  \<open>blk\<close> at the same offset. numpy demands that \<open>blk\<close> has the shape of the
  slice; the transforms return arrays of the size of their argument, which the theorems
  below assume of them.
\<close>

definition covers :: "nat \<Rightarrow> nat \<times> nat \<Rightarrow> nat \<Rightarrow> nat \<Rightarrow> bool" where
  "covers n yx r c = (fst yx \<le> r \<and> r < fst yx + n \<and> snd yx \<le> c \<and> c < snd yx + n)"

definition set_block :: "matrix \<Rightarrow> nat \<Rightarrow> nat \<Rightarrow> nat \<Rightarrow> matrix \<Rightarrow> matrix" where
  "set_block processed y x n blk =
    map (\<lambda>r. map (\<lambda>c.
        if covers n (y, x) r c then blk ! (r - y) ! (c - x) else processed ! r ! c)
      [0..<length (processed ! r)]) [0..<length processed]"

text \<open>
  The body of the block loop up to the two results it leaves behind: the quantized
  block for the archive and the clipped block to be written.
\<close>

definition block_outcome ::
  "cv2 \<Rightarrow> plane \<Rightarrow> nat \<Rightarrow> matrix \<Rightarrow> nat \<times> nat \<Rightarrow> py_error + (matrix \<times> matrix)" where
  "block_outcome cv channel block_size q_matrix yx =
    (let block = block_at channel block_size yx
     in case dct cv block of
          Inl e \<Rightarrow> Inl e
        | Inr dct_block \<Rightarrow>
            (let q = top_left q_matrix (shape0 block) (shape1 block);
                 quantized = quantize dct_block q;
                 dequantized = dequantize quantized q
             in case idct cv dequantized of
                  Inl e \<Rightarrow> Inl e
                | Inr idct_block \<Rightarrow> Inr (quantized, add_128_clip idct_block)))"

definition block_step ::
  "cv2 \<Rightarrow> plane \<Rightarrow> nat \<Rightarrow> matrix \<Rightarrow> nat \<times> nat \<Rightarrow> matrix \<times> matrix list
    \<Rightarrow> py_error + (matrix \<times> matrix list)" where
  "block_step cv channel block_size q_matrix yx st =
    (case block_outcome cv channel block_size q_matrix yx of
       Inl e \<Rightarrow> Inl e
     | Inr (quantized, blk) \<Rightarrow>
         Inr (set_block (fst st) (fst yx) (snd yx) block_size blk, snd st @ [quantized]))"

fun blocks_loop ::
  "(nat \<times> nat \<Rightarrow> 'st \<Rightarrow> py_error + 'st) \<Rightarrow> (nat \<times> nat) list \<Rightarrow> 'st \<Rightarrow> py_error + 'st" where
  "blocks_loop body [] st = Inr st"
| "blocks_loop body (yx # rest) st =
    (case body yx st of Inl e \<Rightarrow> Inl e | Inr st' \<Rightarrow> blocks_loop body rest st')"

definition origins :: "nat \<Rightarrow> nat \<Rightarrow> nat \<Rightarrow> (nat \<times> nat) list" where
  "origins height width block_size =
    List.product (py_range height block_size) (py_range width block_size)"

text \<open>
  The float plane \<open>processed\<close> as it stands when the block loop ends, and the archive.
  \<open>range\<close> raises ValueError for a zero step.
\<close>

definition process_blocks ::
  "cv2 \<Rightarrow> plane \<Rightarrow> nat \<Rightarrow> real \<Rightarrow> string \<Rightarrow> py_error + (matrix \<times> matrix list)" where
  "process_blocks cv channel block_size level quantization =
    (let height = shape0 channel; width = shape1 channel;
         processed = replicate height (replicate width 0);
         q_matrix = scaled_q_matrix cv quantization block_size level
     in if block_size = 0 then Inl ValueError
        else blocks_loop (block_step cv channel block_size q_matrix)
               (origins height width block_size) (processed, []))"

definition process_channel_dct ::
  "cv2 \<Rightarrow> plane \<Rightarrow> nat \<Rightarrow> real \<Rightarrow> string \<Rightarrow> py_error + (plane \<times> matrix list)" where
  "process_channel_dct cv channel block_size level quantization =
    (case process_blocks cv channel block_size level quantization of
       Inl e \<Rightarrow> Inl e
     | Inr (processed, coeffs) \<Rightarrow> Inr (map (map astype_uint8) processed, coeffs))"

section \<open>The block loop on a store of arrays\<close>

text \<open>
  numpy arrays are mutable objects, and the block loop keeps some of them (the archive)
  while it updates others in place (\<open>block -= 128\<close>, \<open>idct_block += 128\<close>, the slice
  assignment into \<open>processed\<close>). To say that an archived block is not touched again,
  the loop is modelled a second time on a store that maps addresses to arrays: an
  operation that returns a new array allocates a fresh address, an in-place operation
  overwrites the array at its address, and the archive is a list of addresses.
\<close>

type_synonym addr = nat

record store =
  arrays :: "addr \<Rightarrow> matrix"
  fresh :: addr

definition new_array :: "matrix \<Rightarrow> store \<Rightarrow> addr \<times> store" where
  "new_array m st =
    (fresh st, st\<lparr>arrays := (arrays st)(fresh st := m), fresh := Suc (fresh st)\<rparr>)"

definition in_place :: "addr \<Rightarrow> (matrix \<Rightarrow> matrix) \<Rightarrow> store \<Rightarrow> store" where
  "in_place a f st = st\<lparr>arrays := (arrays st)(a := f (arrays st a))\<rparr>"

text \<open>
  The loop body, statement by statement. \<open>q_matrix\<close> and \<open>processed\<close> are the
  addresses of the scaled matrix and of the float plane; the slices of \<open>q_matrix\<close> are
  views that are only read.
\<close>

definition block_body_store ::
  "cv2 \<Rightarrow> plane \<Rightarrow> nat \<Rightarrow> addr \<Rightarrow> addr \<Rightarrow> nat \<times> nat \<Rightarrow> store \<times> addr list
    \<Rightarrow> py_error + (store \<times> addr list)" where
  "block_body_store cv channel block_size q_matrix processed yx sc =
    (let (block, st1) =
           new_array (map (map astype_float32) (slice2 channel (fst yx) (snd yx) block_size))
             (fst sc);
         st2 = in_place block (map (map (\<lambda>v. v - 128))) st1
     in case dct cv (arrays st2 block) of
          Inl e \<Rightarrow> Inl e
        | Inr d \<Rightarrow>
            (let (dct_block, st3) = new_array d st2;
                 (quantized, st4) =
                   new_array
                     (quantize (arrays st3 dct_block)
                        (top_left (arrays st3 q_matrix)
                           (shape0 (arrays st3 block)) (shape1 (arrays st3 block)))) st3;
                 (copy, st5) = new_array (arrays st4 quantized) st4;
                 coeffs = snd sc @ [copy];
                 (dequantized, st6) =
                   new_array
                     (dequantize (arrays st5 quantized)
                        (top_left (arrays st5 q_matrix)
                           (shape0 (arrays st5 block)) (shape1 (arrays st5 block)))) st5
             in case idct cv (arrays st6 dequantized) of
                  Inl e \<Rightarrow> Inl e
                | Inr i \<Rightarrow>
                    (let (idct_block, st7) = new_array i st6;
                         st8 = in_place idct_block (map (map (\<lambda>v. v + 128))) st7;
                         (clipped, st9) =
                           new_array (map (map (\<lambda>v. np_clip v 0 255)) (arrays st8 idct_block)) st8;
                         st10 = in_place processed
                                  (\<lambda>p. set_block p (fst yx) (snd yx) block_size
                                          (arrays st9 clipped)) st9
                     in Inr (st10, coeffs))))"

text \<open>
  The channel function up to the end of the loop: it allocates the zero plane and the
  scaled matrix, runs the loop, and returns the final store with the address of the
  plane and the archive.
\<close>

definition process_blocks_store ::
  "cv2 \<Rightarrow> plane \<Rightarrow> nat \<Rightarrow> real \<Rightarrow> string \<Rightarrow> py_error + (store \<times> addr \<times> addr list)" where
  "process_blocks_store cv channel block_size level quantization =
    (let height = shape0 channel; width = shape1 channel;
         (processed, st1) =
           new_array (replicate height (replicate width 0)) \<lparr>arrays = (\<lambda>a. []), fresh = 0\<rparr>;
         (q_matrix, st2) = new_array (scaled_q_matrix cv quantization block_size level) st1
     in if block_size = 0 then Inl ValueError
        else case blocks_loop (block_body_store cv channel block_size q_matrix processed)
                    (origins height width block_size) (st2, []) of
               Inl e \<Rightarrow> Inl e
             | Inr (st, coeffs) \<Rightarrow> Inr (st, processed, coeffs))"

section \<open>The pipeline\<close>

fun cv_split :: "ndarray \<Rightarrow> plane list" where
  "cv_split (Arr2 p) = [p]"
| "cv_split (Arr3 px) = map (\<lambda>c. map (map (\<lambda>p. p ! c)) px) [0..<shape (Arr3 px) ! 2]"

definition cv_merge :: "plane list \<Rightarrow> ndarray" where
  "cv_merge planes =
    Arr3 (map (\<lambda>r. map (\<lambda>c. map (\<lambda>p. p ! r ! c) planes)
            [0..<shape1 (hd planes)]) [0..<shape0 (hd planes)])"

fun cvt_color3 ::
  "(sample \<times> sample \<times> sample \<Rightarrow> sample \<times> sample \<times> sample) \<Rightarrow> ndarray \<Rightarrow> py_error + ndarray" where
  "cvt_color3 f (Arr2 p) = Inl CvError"
| "cvt_color3 f (Arr3 px) =
    (if \<forall>row \<in> set px. \<forall>p \<in> set row. length p = 3
     then Inr (Arr3 (map (map (\<lambda>p. case f (p ! 0, p ! 1, p ! 2) of (a, b, c) \<Rightarrow> [a, b, c])) px))
     else Inl CvError)"

fun cvt_gray2bgr :: "ndarray \<Rightarrow> py_error + ndarray" where
  "cvt_gray2bgr (Arr2 p) = Inr (Arr3 (map (map (\<lambda>g. [g, g, g])) p))"
| "cvt_gray2bgr (Arr3 px) = Inl CvError"

text \<open>
  The loop over the channels. It returns the progress values set so far together with
  the outcome, because a value that was set stays set when a later channel raises.
\<close>

fun channels_loop ::
  "cv2 \<Rightarrow> nat \<Rightarrow> real \<Rightarrow> string \<Rightarrow> nat \<Rightarrow> (nat \<times> plane) list
    \<Rightarrow> plane list \<times> matrix list list \<times> real list
    \<Rightarrow> real list \<times> (py_error + plane list \<times> matrix list list)" where
  "channels_loop cv block_size level quantization n [] (pcs, dcs, prog) =
    (prog, Inr (pcs, dcs))"
| "channels_loop cv block_size level quantization n ((i, channel) # rest) (pcs, dcs, prog) =
    (case process_channel_dct cv channel block_size level quantization of
       Inl e \<Rightarrow> (prog, Inl e)
     | Inr (processed, coeffs) \<Rightarrow>
         channels_loop cv block_size level quantization n rest
           (pcs @ [processed], dcs @ [coeffs],
            prog @ [20 + real (i + 1) * 60 / real n]))"

definition split_channels :: "cv2 \<Rightarrow> string \<Rightarrow> ndarray \<Rightarrow> py_error + plane list" where
  "split_channels cv color_space img =
    (if color_space = ''YCbCr'' then
       (case cvt_color3 (bgr2ycrcb cv) img of Inl e \<Rightarrow> Inl e | Inr y \<Rightarrow> Inr (cv_split y))
     else if color_space = ''Grayscale'' then
       (case cvt_bgr2gray cv img of Inl e \<Rightarrow> Inl e | Inr g \<Rightarrow> Inr (cv_split g))
     else Inr (cv_split img))"

definition merge_channels :: "cv2 \<Rightarrow> string \<Rightarrow> plane list \<Rightarrow> py_error + ndarray" where
  "merge_channels cv color_space processed_channels =
    (let processed_img =
           (if length processed_channels = 1 then Arr2 (processed_channels ! 0)
            else cv_merge processed_channels)
     in if color_space = ''YCbCr'' then cvt_color3 (ycrcb2bgr cv) processed_img
        else if color_space = ''Grayscale'' then cvt_gray2bgr processed_img
        else Inr processed_img)"

text \<open>
  \<open>_apply_dct_thread\<close>. Every exception ends in the handler, which reports the failure;
  what was assigned before it stays assigned.
\<close>

definition apply_dct_thread :: "cv2 \<Rightarrow> app \<Rightarrow> real \<Rightarrow> nat \<Rightarrow> string \<Rightarrow> string \<Rightarrow> app" where
  "apply_dct_thread cv s level block_size color_space quantization =
    (let s1 = s\<lparr>progress_var := progress_var s @ [10]\<rparr>
     in case original_image s1 of
          None \<Rightarrow> s1\<lparr>status_message := Failed\<rparr>
        | Some img \<Rightarrow>
           (case split_channels cv color_space img of
              Inl e \<Rightarrow> s1\<lparr>status_message := Failed\<rparr>
            | Inr channels \<Rightarrow>
               (let s2 = s1\<lparr>progress_var := progress_var s1 @ [20]\<rparr>
                in case channels_loop cv block_size level quantization (length channels)
                          (enumerate 0 channels) ([], [], progress_var s2) of
                     (prog, Inl e) \<Rightarrow> s2\<lparr>progress_var := prog, status_message := Failed\<rparr>
                   | (prog, Inr (processed_channels, dct_coeffs)) \<Rightarrow>
                      (let s3 = s2\<lparr>progress_var := prog\<rparr>
                       in case merge_channels cv color_space processed_channels of
                            Inl e \<Rightarrow> s3\<lparr>status_message := Failed\<rparr>
                          | Inr processed_img \<Rightarrow>
                             (let s4 = s3\<lparr>processed_image := Some processed_img,
                                           dct_coefficients := dct_coeffs\<rparr>
                              in case calculate_metrics cv s4 of
                                   Inl e \<Rightarrow> s4\<lparr>status_message := Failed\<rparr>
                                 | Inr s5 \<Rightarrow> s5\<lparr>status_message := Completed\<rparr>)))))"

text \<open>
  \<open>apply_dct\<close>: without an image it warns and returns. Otherwise it reads the level
  from the slider variable, shows the progress bar (which resets it to 0) and starts the
  thread. The block size arrives as the number in front of the \<open>x\<close> of the combobox
  entry.
\<close>

definition apply_dct :: "cv2 \<Rightarrow> app \<Rightarrow> nat \<Rightarrow> string \<Rightarrow> string \<Rightarrow> app" where
  "apply_dct cv s block_size color_space quantization =
    (case original_image s of
       None \<Rightarrow> s
     | Some img \<Rightarrow>
         (let level = real_of_int (compression_level s) / 100;
              s0 = s\<lparr>progress_var := progress_var s @ [0], status_message := Applying\<rparr>
          in apply_dct_thread cv s0 level block_size color_space quantization))"

text \<open>The progress bar has \<open>maximum=100\<close>: a value \<open>v\<close> shows the fraction \<open>v / 100\<close>.\<close>

definition progress_fraction :: "real \<Rightarrow> real" where
  "progress_fraction v = v / 100"

section \<open>The OpenCV functions as documented\<close>

text \<open>
  One instance of the parameters, written from the OpenCV reference: the orthonormal
  cosine transform \<open>C X C\<^sup>T\<close> with \<open>C\<^sub>k\<^sub>n = sqrt (\<alpha>\<^sub>k / N) cos ((2n+1) k \<pi> / 2N)\<close>,
  \<open>\<alpha>\<^sub>0 = 1\<close> and \<open>\<alpha>\<^sub>k = 2\<close> otherwise, its inverse \<open>C\<^sup>T Y C\<close>, bilinear
  interpolation between pixel centres, and the colour conversions with their
  published weights. It serves where a statement needs a concrete library.
\<close>

definition dct_coef :: "nat \<Rightarrow> nat \<Rightarrow> nat \<Rightarrow> real" where
  "dct_coef N k n =
    sqrt ((if k = 0 then 1 else 2) / real N) * cos (pi * real ((2 * n + 1) * k) / real (2 * N))"

definition cv_dct :: "matrix \<Rightarrow> matrix" where
  "cv_dct X =
    map (\<lambda>u. map (\<lambda>v.
        (\<Sum>i\<leftarrow>[0..<length X]. \<Sum>j\<leftarrow>[0..<length (X ! i)].
           dct_coef (length X) u i * X ! i ! j * dct_coef (length (X ! i)) v j))
      [0..<length (X ! u)]) [0..<length X]"

definition cv_idct :: "matrix \<Rightarrow> matrix" where
  "cv_idct Y =
    map (\<lambda>i. map (\<lambda>j.
        (\<Sum>u\<leftarrow>[0..<length Y]. \<Sum>v\<leftarrow>[0..<length (Y ! u)].
           dct_coef (length Y) u i * Y ! u ! v * dct_coef (length (Y ! u)) v j))
      [0..<length (Y ! i)]) [0..<length Y]"

definition cv_resize_linear :: "matrix \<Rightarrow> nat \<Rightarrow> matrix" where
  "cv_resize_linear src n =
    (let h = int (shape0 src); w = int (shape1 src);
         px = (\<lambda>y x. src ! nat (max 0 (min (h - 1) y)) ! nat (max 0 (min (w - 1) x)))
     in map (\<lambda>dy. map (\<lambda>dx.
          let fy = (real dy + 1/2) * real_of_int h / real n - 1/2;
              fx = (real dx + 1/2) * real_of_int w / real n - 1/2;
              y0 = \<lfloor>fy\<rfloor>; x0 = \<lfloor>fx\<rfloor>;
              ay = fy - of_int y0; ax = fx - of_int x0
          in (1 - ay) * ((1 - ax) * px y0 x0 + ax * px y0 (x0 + 1))
             + ay * ((1 - ax) * px (y0 + 1) x0 + ax * px (y0 + 1) (x0 + 1)))
        [0..<n]) [0..<n])"

definition saturate_uint8 :: "real \<Rightarrow> sample" where
  "saturate_uint8 v = word_of_int (max 0 (min 255 (round v)))"

definition luma :: "sample \<times> sample \<times> sample \<Rightarrow> real" where
  "luma bgr = (case bgr of (b, g, r) \<Rightarrow>
     299 / 1000 * real (unat r) + 587 / 1000 * real (unat g) + 114 / 1000 * real (unat b))"

definition cv_bgr2gray :: "sample \<times> sample \<times> sample \<Rightarrow> sample" where
  "cv_bgr2gray bgr = saturate_uint8 (luma bgr)"

definition cv_bgr2ycrcb :: "sample \<times> sample \<times> sample \<Rightarrow> sample \<times> sample \<times> sample" where
  "cv_bgr2ycrcb bgr = (case bgr of (b, g, r) \<Rightarrow>
     (saturate_uint8 (luma bgr),
      saturate_uint8 ((real (unat r) - luma bgr) * 713 / 1000 + 128),
      saturate_uint8 ((real (unat b) - luma bgr) * 564 / 1000 + 128)))"

definition cv_ycrcb2bgr :: "sample \<times> sample \<times> sample \<Rightarrow> sample \<times> sample \<times> sample" where
  "cv_ycrcb2bgr ycc = (case ycc of (y, cr, cb) \<Rightarrow>
     (saturate_uint8 (real (unat y) + 1773 / 1000 * (real (unat cb) - 128)),
      saturate_uint8 (real (unat y) - 714 / 1000 * (real (unat cr) - 128)
                        - 344 / 1000 * (real (unat cb) - 128)),
      saturate_uint8 (real (unat y) + 1403 / 1000 * (real (unat cr) - 128))))"

definition cv2_doc :: cv2 where
  "cv2_doc = \<lparr>dct = (\<lambda>X. Inr (cv_dct X)), idct = (\<lambda>Y. Inr (cv_idct Y)),
              resize = cv_resize_linear, bgr2ycrcb = cv_bgr2ycrcb,
              ycrcb2bgr = cv_ycrcb2bgr, bgr2gray = cv_bgr2gray\<rparr>"

text \<open>
  What the theorems assume of the transforms: a result has the row lengths of the
  argument (OpenCV: "output array of the same size and type as src").
\<close>

definition keeps_shape :: "(matrix \<Rightarrow> py_error + matrix) \<Rightarrow> bool" where
  "keeps_shape f = (\<forall>X Y. f X = Inr Y \<longrightarrow> map length Y = map length X)"

definition rectangular :: "'a list list \<Rightarrow> nat \<Rightarrow> nat \<Rightarrow> bool" where
  "rectangular a h w = (length a = h \<and> (\<forall>row \<in> set a. length row = w))"

text \<open>A colour image as \<open>cv2.imread\<close> returns it: height by width pixels of three bytes.\<close>

definition is_bgr :: "ndarray \<Rightarrow> nat \<Rightarrow> nat \<Rightarrow> bool" where
  "is_bgr img h w =
    (case img of
       Arr2 p \<Rightarrow> False
     | Arr3 px \<Rightarrow> 0 < h \<and> 0 < w \<and> rectangular px h w
                  \<and> (\<forall>row \<in> set px. \<forall>p \<in> set row. length p = 3))"

text \<open>
  The library contract under which the codec is verified: the transforms keep the
  shape, and the resize to \<open>(n, n)\<close> returns an n by n array.
\<close>

definition cv_contract :: "cv2 \<Rightarrow> nat \<Rightarrow> bool" where
  "cv_contract cv n =
    (keeps_shape (dct cv) \<and> keeps_shape (idct cv) \<and> rectangular (resize cv base_q n) n n)"

text \<open>The transforms raise on no argument.\<close>

definition never_raises :: "cv2 \<Rightarrow> bool" where
  "never_raises cv = (\<forall>X. \<not> isl (dct cv X) \<and> \<not> isl (idct cv X))"

text \<open>A plane of 5 rows and 6 columns, not a multiple of any supported block size.\<close>

definition plane_5x6 :: plane where
  "plane_5x6 =
    [[10, 20, 30, 40, 50, 60],
     [15, 25, 35, 45, 55, 65],
     [200, 190, 180, 170, 160, 150],
     [0, 255, 0, 255, 0, 255],
     [128, 128, 128, 128, 128, 128]]"

text \<open>An application state with a 2 by 2 colour image loaded and the slider at 50.\<close>

definition image_2x2 :: ndarray where
  "image_2x2 = Arr3 [[[10, 20, 30], [40, 50, 60]], [[70, 80, 90], [100, 110, 120]]]"

definition app0 :: app where
  "app0 = \<lparr>original_image = Some image_2x2, processed_image = None,
           dct_coefficients = [], psnr_value = NaN, compression_ratio = 0,
           compression_level = 50, progress_var = [], status_message = Ready\<rparr>"

text \<open>The number of planes that a colour model yields for a colour image.\<close>

definition plane_count :: "string \<Rightarrow> nat" where
  "plane_count color_space = (if color_space = ''Grayscale'' then 1 else 3)"


text \<open>
  OpenCV implements the two transforms for even sizes only ("currently dct supports
  even-size arrays"): handed an array with an odd side greater than 1 it raises. The
  second instance of the library adds this restriction to the first.
\<close>

definition odd_side :: "matrix \<Rightarrow> bool" where
  "odd_side X = (odd (shape0 X) \<and> 1 < shape0 X \<or> odd (shape1 X) \<and> 1 < shape1 X)"

definition cv2_even :: cv2 where
  "cv2_even = cv2_doc
     \<lparr>dct := (\<lambda>X. if odd_side X then Inl CvError else Inr (cv_dct X)),
      idct := (\<lambda>Y. if odd_side Y then Inl CvError else Inr (cv_idct Y))\<rparr>"

text \<open>A plane and a colour image of 3 rows and 3 columns.\<close>

definition plane_3x3 :: plane where
  "plane_3x3 = [[10, 20, 30], [40, 50, 60], [70, 80, 90]]"

definition image_3x3 :: ndarray where
  "image_3x3 =
    Arr3 [[[10, 11, 12], [20, 21, 22], [30, 31, 32]],
          [[40, 41, 42], [50, 51, 52], [60, 61, 62]],
          [[70, 71, 72], [80, 81, 82], [90, 91, 92]]]"

section \<open>Properties of the quantization matrices\<close>

lemma jpeg_luminance_ge_1: "row \<in> set jpeg_luminance \<Longrightarrow> v \<in> set row \<Longrightarrow> 1 \<le> v"
  unfolding jpeg_luminance_def by auto

lemma create_jpeg_ge_1:
  "row \<in> set (create_jpeg_quantization_matrix cv sz) \<Longrightarrow> v \<in> set row \<Longrightarrow> 1 \<le> v"
  unfolding create_jpeg_quantization_matrix_def
  by (auto simp: np_clip_def dest: jpeg_luminance_ge_1 split: if_splits)

lemma create_custom_ge_1:
  "row \<in> set (create_custom_quantization_matrix sz) \<Longrightarrow> v \<in> set row \<Longrightarrow> 1 \<le> v"
  unfolding create_custom_quantization_matrix_def
  by (auto simp: Let_def)

lemma np_ones_ge_1: "row \<in> set (np_ones sz) \<Longrightarrow> v \<in> set row \<Longrightarrow> 1 \<le> v"
  unfolding np_ones_def by auto

lemma select_q_matrix_ge_1:
  "row \<in> set (select_q_matrix cv quantization sz) \<Longrightarrow> v \<in> set row \<Longrightarrow> 1 \<le> v"
  unfolding select_q_matrix_def
  by (auto dest: create_jpeg_ge_1 create_custom_ge_1 np_ones_ge_1 split: if_splits)


lemma scaled_q_matrix_ge_1:
  assumes "0 < level" and "level \<le> 1"
    and "row \<in> set (scaled_q_matrix cv quantization sz level)" and "v \<in> set row"
  shows "1 \<le> v"
proof -
  from assms(3) obtain row0 where r0: "row0 \<in> set (select_q_matrix cv quantization sz)"
    and row: "row = map (\<lambda>v. v * level_scale level) row0"
    unfolding scaled_q_matrix_def by auto
  from assms(4) row obtain v0 where v0: "v0 \<in> set row0" and v: "v = v0 * level_scale level"
    by auto
  have "1 \<le> v0" using select_q_matrix_ge_1 [OF r0 v0] .
  moreover have "1 \<le> level_scale level" using assms(2) by (simp add: level_scale_def)
  ultimately have "1 * 1 \<le> v0 * level_scale level"
    by (intro mult_mono) auto
  with v show ?thesis by simp
qed

text \<open>
  C4. For every quantization policy (the strings ''Standard JPEG'' and ''Uniform''; any
  other string selects the custom radial matrix) and every block size, in particular
  4, 8, 16 and 32, every entry of the matrix that the builder returns is at least 1,
  whatever the resize function of the library returns.
\<close>

theorem quantization_matrix_entries_ge_1:
  "\<forall>row \<in> set (select_q_matrix cv quantization sz). \<forall>v \<in> set row. 1 \<le> v"
  using select_q_matrix_ge_1 by blast

theorem quantization_matrix_entries_ge_1_witness:
  "[1, 1, 1, 1] \<in> set (select_q_matrix cv2_doc ''Uniform'' 4)
   \<and> create_custom_quantization_matrix 4 ! 1 \<in> set (select_q_matrix cv2_doc ''Custom'' 4)
   \<and> create_custom_quantization_matrix 4 ! 1 ! 2 \<in> set (create_custom_quantization_matrix 4 ! 1)
   \<and> 1 \<le> create_custom_quantization_matrix 4 ! 1 ! 2"
proof -
  have len: "length (create_custom_quantization_matrix 4) = 4"
    by (simp add: create_custom_quantization_matrix_def)
  have len1: "length (create_custom_quantization_matrix 4 ! 1) = 4"
    by (simp add: create_custom_quantization_matrix_def)
  have a: "create_custom_quantization_matrix 4 ! 1 \<in> set (select_q_matrix cv2_doc ''Custom'' 4)"
    using len by (simp add: select_q_matrix_def)
  have b: "create_custom_quantization_matrix 4 ! 1 ! 2 \<in> set (create_custom_quantization_matrix 4 ! 1)"
    using len1 by simp
  have c: "[1, 1, 1, 1] \<in> set (select_q_matrix cv2_doc ''Uniform'' 4)"
    by (simp add: select_q_matrix_def np_ones_def numeral_eq_Suc)
  from quantization_matrix_entries_ge_1 [of cv2_doc "''Custom''" 4] a b c show ?thesis
    by blast
qed

section \<open>Properties of the metrics\<close>

text \<open>
  The expression of the ratio: on slider values in [1,100] it does not divide by zero
  and is strictly increasing.
\<close>

lemma ratio_of_level_increasing:
  assumes "1 \<le> p" and "p < q" and "q \<le> 100"
  shows "ratio_of_level p = Inr (1 / (1 + (100 - real_of_int p) / 100))
       \<and> ratio_of_level q = Inr (1 / (1 + (100 - real_of_int q) / 100))
       \<and> 1 / (1 + (100 - real_of_int p) / 100) < 1 / (1 + (100 - real_of_int q) / 100)
       \<and> projr (ratio_of_level 10) < projr (ratio_of_level 90)"
proof -
  have rq: "real_of_int q \<le> 100" using assms by simp
  have rp: "real_of_int p < real_of_int q" using assms by simp
  have dp: "0 < 1 + (100 - real_of_int p) / 100" using rq rp by argo
  have dq: "0 < 1 + (100 - real_of_int q) / 100" using rq by argo
  have lt: "1 + (100 - real_of_int q) / 100 < 1 + (100 - real_of_int p) / 100"
    using rp by argo
  have a: "ratio_of_level p = Inr (1 / (1 + (100 - real_of_int p) / 100))"
    using dp unfolding ratio_of_level_def Let_def by simp
  have b: "ratio_of_level q = Inr (1 / (1 + (100 - real_of_int q) / 100))"
    using dq unfolding ratio_of_level_def Let_def by simp
  have c: "1 / (1 + (100 - real_of_int p) / 100) < 1 / (1 + (100 - real_of_int q) / 100)"
    using dq lt by (simp add: frac_less2)
  have d: "projr (ratio_of_level 10) < projr (ratio_of_level 90)"
    unfolding ratio_of_level_def Let_def by simp
  from a b c d show ?thesis by blast
qed

text \<open>
  C1. The metrics computation subtracts and squares in the byte type. With an
  original pixel (16,16,16) and a reconstructed pixel (0,0,0) every squared difference
  is 256, which is 0 as a byte: the computed mean is 0 and the reported PSNR is
  infinite, while the mean of the squared differences is 256 and the PSNR of the
  specification is 20 log10 (255 / 16).
\<close>

theorem calculate_metrics_wraps_at_16:
  "map_sum id psnr_value
     (calculate_metrics cv (s\<lparr>original_image := Some (Arr3 [[[16, 16, 16]]]),
                               processed_image := Some (Arr3 [[[0, 0, 0]]]),
                               compression_level := 50\<rparr>)) = Inr PInf
   \<and> spec_mse [16, 16, 16] [0, 0, 0] = 256
   \<and> psnr_of_mse (spec_mse [16, 16, 16] [0, 0, 0]) = Fin (20 * log 10 (255 / 16))"
  unfolding calculate_metrics_def psnr_pair_def mse_arrays_def np_mean_def
    squared_diff_def spec_mse_def psnr_of_mse_def ratio_of_level_def Let_def
  by simp

section \<open>Properties of the block loop\<close>

lemma set_block_length [simp]: "length (set_block P y x n W) = length P"
  by (simp add: set_block_def)

lemma set_block_row_length [simp]:
  "r < length P \<Longrightarrow> length (set_block P y x n W ! r) = length (P ! r)"
  by (simp add: set_block_def)

lemma set_block_shape: "map length (set_block P y x n W) = map length P"
  by (rule nth_equalityI) simp_all

lemma set_block_nth:
  "r < length P \<Longrightarrow> c < length (P ! r) \<Longrightarrow>
   set_block P y x n W ! r ! c =
     (if covers n (y, x) r c then W ! (r - y) ! (c - x) else P ! r ! c)"
  by (simp add: set_block_def)

lemma foldl_set_block_shape:
  "map length (foldl (\<lambda>P yx. set_block P (fst yx) (snd yx) n (W yx)) P os) = map length P"
  by (induction os arbitrary: P) (simp_all add: set_block_shape)

lemma foldl_set_block_nth:
  assumes "r < length P" and "c < length (P ! r)"
    and "\<forall>yx \<in> set os. covers n yx r c \<longrightarrow> yx = o'"
  shows "foldl (\<lambda>P yx. set_block P (fst yx) (snd yx) n (W yx)) P os ! r ! c =
           (if o' \<in> set os \<and> covers n o' r c then W o' ! (r - fst o') ! (c - snd o')
            else P ! r ! c)"
  using assms
proof (induction os arbitrary: P)
  case Nil
  then show ?case by simp
next
  case (Cons yx os)
  let ?P = "set_block P (fst yx) (snd yx) n (W yx)"
  have r: "r < length ?P" and c: "c < length (?P ! r)"
    using Cons.prems by simp_all
  have rest: "\<forall>yx \<in> set os. covers n yx r c \<longrightarrow> yx = o'"
    using Cons.prems by simp
  have here: "?P ! r ! c =
      (if covers n yx r c then W yx ! (r - fst yx) ! (c - snd yx) else P ! r ! c)"
    using set_block_nth [of r P c "fst yx" "snd yx" n "W yx"] Cons.prems by simp
  have first: "covers n yx r c \<Longrightarrow> yx = o'"
    using Cons.prems by simp
  show ?case
    using Cons.IH [OF r c rest] here first by auto
qed

lemma blocks_loop_block_step:
  assumes "blocks_loop (block_step cv ch n q) os st = Inr st'"
  shows "(\<forall>yx \<in> set os. \<not> isl (block_outcome cv ch n q yx))
       \<and> snd st' = snd st @ map (\<lambda>yx. fst (projr (block_outcome cv ch n q yx))) os
       \<and> fst st' = foldl (\<lambda>P yx. set_block P (fst yx) (snd yx) n
                                  (snd (projr (block_outcome cv ch n q yx)))) (fst st) os"
  using assms
proof (induction os arbitrary: st)
  case Nil
  then show ?case by simp
next
  case (Cons yx os)
  from Cons.prems obtain st1 where s1: "block_step cv ch n q yx st = Inr st1"
    and rest: "blocks_loop (block_step cv ch n q) os st1 = Inr st'"
    by (auto split: sum.splits)
  from s1 obtain Qz Wb where bo: "block_outcome cv ch n q yx = Inr (Qz, Wb)"
    and st1: "st1 = (set_block (fst st) (fst yx) (snd yx) n Wb, snd st @ [Qz])"
    unfolding block_step_def by (auto split: sum.splits)
  from Cons.IH [OF rest] bo st1 show ?case by simp
qed

lemma blocks_loop_total:
  assumes "\<forall>yx \<in> set os. \<not> isl (block_outcome cv ch n q yx)"
  shows "\<not> isl (blocks_loop (block_step cv ch n q) os st)"
  using assms
proof (induction os arbitrary: st)
  case Nil
  then show ?case by simp
next
  case (Cons yx os)
  then obtain Qz Wb where bo: "block_outcome cv ch n q yx = Inr (Qz, Wb)"
    by (cases "block_outcome cv ch n q yx") auto
  then show ?case using Cons by (simp add: block_step_def)
qed


lemma rectangular_iff: "rectangular a h w \<longleftrightarrow> map length a = replicate h w"
proof
  assume "rectangular a h w"
  then show "map length a = replicate h w"
    unfolding rectangular_def by (intro nth_equalityI) auto
next
  assume eq: "map length a = replicate h w"
  then have len: "length a = h" by (metis length_map length_replicate)
  have "length row = w" if "row \<in> set a" for row
  proof -
    from that have "length row \<in> set (map length a)" by simp
    with eq show ?thesis by (metis empty_iff in_set_replicate)
  qed
  with len show "rectangular a h w" unfolding rectangular_def by simp
qed

lemma keeps_shape_rectangular:
  "keeps_shape f \<Longrightarrow> f X = Inr Y \<Longrightarrow> rectangular X h w \<Longrightarrow> rectangular Y h w"
  unfolding keeps_shape_def rectangular_iff by metis

lemma rectangular_nth:
  "rectangular a h w \<Longrightarrow> i < h \<Longrightarrow> length (a ! i) = w"
  unfolding rectangular_def by auto

lemma rectangular_length: "rectangular a h w \<Longrightarrow> length a = h"
  unfolding rectangular_def by simp

lemma rectangular_map2:
  assumes "rectangular a h w" and "rectangular b h w"
  shows "rectangular (map2 (map2 f) a b) h w"
proof -
  have "length row = w" if "row \<in> set (map2 (map2 f) a b)" for row
  proof -
    from that obtain ra rb where "ra \<in> set a" "rb \<in> set b" "row = map2 f ra rb"
      by (auto dest: set_zip_leftD set_zip_rightD)
    with assms show ?thesis unfolding rectangular_def by simp
  qed
  then show ?thesis using assms unfolding rectangular_def by simp
qed

lemma map2_map2_nth:
  assumes "rectangular a h w" and "rectangular b h w" and "i < h" and "j < w"
  shows "map2 (map2 f) a b ! i ! j = f (a ! i ! j) (b ! i ! j)"
proof -
  have la: "length a = h" "length b = h" using assms by (simp_all add: rectangular_length)
  have "length (a ! i) = w" "length (b ! i) = w"
    using assms by (simp_all add: rectangular_nth)
  then show ?thesis using la assms(3,4) by simp
qed

lemma rectangular_map_map:
  "rectangular a h w \<Longrightarrow> rectangular (map (map f) a) h w"
  unfolding rectangular_def by auto

lemma rectangular_top_left:
  assumes "rectangular q n n" and "h \<le> n" and "w \<le> n"
  shows "rectangular (top_left q h w) h w"
  using assms unfolding rectangular_def top_left_def
  by (auto dest: in_set_takeD)

lemma top_left_nth:
  assumes "rectangular q n n" and "i < h" and "h \<le> n" and "j < w" and "w \<le> n"
  shows "top_left q h w ! i ! j = q ! i ! j"
  using assms unfolding rectangular_def top_left_def by simp

lemma rectangular_slice2:
  assumes "rectangular a h w"
  shows "rectangular (slice2 a y x n) (min n (h - y)) (min n (w - x))"
  using assms unfolding rectangular_def slice2_def
  by (auto dest!: in_set_takeD in_set_dropD)

lemma slice2_nth:
  assumes "rectangular a h w" and "i < min n (h - y)" and "j < min n (w - x)"
  shows "slice2 a y x n ! i ! j = a ! (y + i) ! (x + j)"
proof -
  have "length a = h" using assms by (simp add: rectangular_length)
  moreover have "y + i < h" using assms(2) by linarith
  then have "length (a ! (y + i)) = w"
    by (rule rectangular_nth [OF assms(1)])
  moreover have "y \<le> h" and "x \<le> w" using assms(2,3) by linarith+
  ultimately have "drop y a ! i = a ! (y + i)"
    and "drop x (a ! (y + i)) ! j = a ! (y + i) ! (x + j)"
    and "i < length (take n (drop y a))"
    using assms(2,3) by simp_all
  then show ?thesis using assms(2,3) unfolding slice2_def by simp
qed

lemma rectangular_block_at:
  "rectangular ch h w \<Longrightarrow>
   rectangular (block_at ch n (y, x)) (min n (h - y)) (min n (w - x))"
  unfolding block_at_def by (simp add: rectangular_map_map rectangular_slice2)

lemma block_at_nth:
  assumes "rectangular ch h w" and "i < min n (h - y)" and "j < min n (w - x)"
  shows "block_at ch n (y, x) ! i ! j = astype_float32 (ch ! (y + i) ! (x + j)) - 128"
proof -
  have rs: "rectangular (slice2 ch y x n) (min n (h - y)) (min n (w - x))"
    using assms(1) by (rule rectangular_slice2)
  have "length (slice2 ch y x n) = min n (h - y)"
    using rs by (rule rectangular_length)
  moreover have "length (slice2 ch y x n ! i) = min n (w - x)"
    using rs assms(2) by (rule rectangular_nth)
  ultimately show ?thesis
    using assms slice2_nth [OF assms] unfolding block_at_def by simp
qed

lemma shape_rectangular:
  "rectangular a h w \<Longrightarrow> 0 < h \<Longrightarrow> shape0 a = h \<and> shape1 a = w"
  unfolding rectangular_def shape0_def shape1_def by (cases a) auto


lemma py_range_mem:
  assumes "0 < n"
  shows "y \<in> set (py_range h n) \<longleftrightarrow> (\<exists>k. y = k * n \<and> k * n < h)"
proof -
  have "k < (h + n - 1) div n \<longleftrightarrow> k * n < h" for k
  proof -
    have "k < (h + n - 1) div n \<longleftrightarrow> Suc k \<le> (h + n - 1) div n" by auto
    also have "\<dots> \<longleftrightarrow> Suc k * n \<le> h + n - 1"
      using assms by (simp add: less_eq_div_iff_mult_less_eq)
    also have "\<dots> \<longleftrightarrow> k * n < h" using assms by auto
    finally show ?thesis .
  qed
  then show ?thesis unfolding py_range_def by auto
qed

lemma py_range_covers:
  assumes "0 < n" and "r < h"
  shows "(y \<in> set (py_range h n) \<and> y \<le> r \<and> r < y + n) \<longleftrightarrow> y = (r div n) * n"
proof
  assume a: "y \<in> set (py_range h n) \<and> y \<le> r \<and> r < y + n"
  then obtain k where k: "y = k * n" using py_range_mem [OF assms(1)] by blast
  with a have "n * k \<le> r" and "r < n * Suc k" by (simp_all add: mult.commute)
  then have "r div n = k" by (rule div_nat_eqI)
  with k show "y = (r div n) * n" by simp
next
  assume y: "y = (r div n) * n"
  have le: "(r div n) * n \<le> r" by simp
  then have "(r div n) * n < h" using assms(2) by linarith
  then have "y \<in> set (py_range h n)" using py_range_mem [OF assms(1)] y by blast
  moreover have "r < (r div n) * n + n"
    using assms(1) by (metis add.commute dividend_less_times_div mult.commute)
  ultimately show "y \<in> set (py_range h n) \<and> y \<le> r \<and> r < y + n" using y le by simp
qed

lemma origins_covers:
  assumes "0 < n" and "r < h" and "c < w"
  shows "(yx \<in> set (origins h w n) \<and> covers n yx r c)
          \<longleftrightarrow> yx = ((r div n) * n, (c div n) * n)"
proof -
  obtain y x where yx: "yx = (y, x)" by (cases yx)
  have "(yx \<in> set (origins h w n) \<and> covers n yx r c) \<longleftrightarrow>
        (y \<in> set (py_range h n) \<and> y \<le> r \<and> r < y + n)
        \<and> (x \<in> set (py_range w n) \<and> x \<le> c \<and> c < x + n)"
    unfolding origins_def covers_def yx by auto
  then show ?thesis
    using py_range_covers [OF assms(1,2)] py_range_covers [OF assms(1,3)] yx by simp
qed

lemma distinct_py_range: "0 < n \<Longrightarrow> distinct (py_range h n)"
  unfolding py_range_def by (simp add: distinct_map inj_on_def)

lemma distinct_origins: "0 < n \<Longrightarrow> distinct (origins h w n)"
  unfolding origins_def by (simp add: distinct_product distinct_py_range)

lemma covered_once:
  assumes "0 < n" and "r < h" and "c < w"
  shows "length (filter (\<lambda>yx. covers n yx r c) (origins h w n)) = 1"
proof -
  have "{yx. covers n yx r c} \<inter> set (origins h w n) = {((r div n) * n, (c div n) * n)}"
    using origins_covers [OF assms] by blast
  then show ?thesis
    using distinct_length_filter [OF distinct_origins [OF assms(1)], of "\<lambda>yx. covers n yx r c" h w]
    by simp
qed

lemma origins_in_range:
  assumes "0 < n" and "yx \<in> set (origins h w n)"
  shows "fst yx < h \<and> snd yx < w"
  using assms py_range_mem [OF assms(1)] unfolding origins_def by (cases yx) auto

lemma rectangular_scaled:
  "rectangular (select_q_matrix cv quantization n) n n \<Longrightarrow>
   rectangular (scaled_q_matrix cv quantization n level) n n"
  unfolding scaled_q_matrix_def by (rule rectangular_map_map)

lemma block_outcome_Inr:
  assumes ds: "keeps_shape (dct cv)" and ids: "keeps_shape (idct cv)"
    and q: "rectangular qm n n" and ch: "rectangular ch h w"
    and y: "y < h" and x: "x < w"
    and out: "block_outcome cv ch n qm (y, x) = Inr (Qz, Wb)"
  defines "bh \<equiv> min n (h - y)" and "bw \<equiv> min n (w - x)"
  shows "\<exists>D I. dct cv (block_at ch n (y, x)) = Inr D
           \<and> Qz = quantize D (top_left qm bh bw)
           \<and> idct cv (dequantize Qz (top_left qm bh bw)) = Inr I
           \<and> Wb = add_128_clip I
           \<and> rectangular D bh bw \<and> rectangular Qz bh bw
           \<and> rectangular I bh bw \<and> rectangular Wb bh bw"
proof -
  let ?B = "block_at ch n (y, x)"
  have B: "rectangular ?B bh bw"
    unfolding bh_def bw_def using ch by (rule rectangular_block_at)
  have sh: "top_left qm (shape0 ?B) (shape1 ?B) = top_left qm bh bw"
  proof (cases "0 < bh")
    case True
    then show ?thesis using shape_rectangular [OF B] by simp
  next
    case False
    then have "bh = 0" by simp
    moreover from this have "shape0 ?B = 0"
      using rectangular_length [OF B] by (simp add: shape0_def)
    ultimately show ?thesis by (simp add: top_left_def)
  qed
  from out obtain D where D: "dct cv ?B = Inr D"
    unfolding block_outcome_def Let_def by (auto split: sum.splits)
  with out sh obtain I where I: "idct cv (dequantize (quantize D (top_left qm bh bw)) (top_left qm bh bw)) = Inr I"
    and Qz: "Qz = quantize D (top_left qm bh bw)" and Wb: "Wb = add_128_clip I"
    unfolding block_outcome_def Let_def by (auto split: sum.splits)
  have rD: "rectangular D bh bw" using ds D B by (rule keeps_shape_rectangular)
  have rq: "rectangular (top_left qm bh bw) bh bw"
    using q unfolding bh_def bw_def by (intro rectangular_top_left) auto
  have rQ: "rectangular Qz bh bw"
    unfolding Qz quantize_def using rD rq by (rule rectangular_map2)
  have rdq: "rectangular (dequantize Qz (top_left qm bh bw)) bh bw"
    unfolding dequantize_def using rQ rq by (rule rectangular_map2)
  have rI: "rectangular I bh bw"
    using ids I [folded Qz] rdq by (rule keeps_shape_rectangular)
  have rW: "rectangular Wb bh bw"
    unfolding Wb add_128_clip_def using rI by (rule rectangular_map_map)
  from D Qz I rD rQ rI rW Wb show ?thesis by blast
qed


lemma rectangular_zeros: "rectangular (replicate h (replicate w (0::real))) h w"
  unfolding rectangular_def by auto

lemma process_blocks_Inr:
  assumes ch: "rectangular ch h w" and h: "0 < h"
    and run: "process_blocks cv ch n level quantization = Inr (F, C)"
  defines "qm \<equiv> scaled_q_matrix cv quantization n level"
  shows "0 < n"
    and "\<forall>yx \<in> set (origins h w n). \<not> isl (block_outcome cv ch n qm yx)"
    and "C = map (\<lambda>yx. fst (projr (block_outcome cv ch n qm yx))) (origins h w n)"
    and "F = foldl (\<lambda>P yx. set_block P (fst yx) (snd yx) n
                        (snd (projr (block_outcome cv ch n qm yx))))
                 (replicate h (replicate w 0)) (origins h w n)"
proof -
  have sh: "shape0 ch = h" "shape1 ch = w"
    using shape_rectangular [OF ch h] by simp_all
  show n: "0 < n"
  proof (rule ccontr)
    assume "\<not> 0 < n"
    then have "process_blocks cv ch n level quantization = Inl ValueError"
      unfolding process_blocks_def Let_def by simp
    with run show False by simp
  qed
  have loop: "blocks_loop (block_step cv ch n qm) (origins h w n)
       (replicate h (replicate w 0), []) = Inr (F, C)"
    using run n unfolding process_blocks_def Let_def sh qm_def by simp
  note res = blocks_loop_block_step [OF loop]
  show "\<forall>yx \<in> set (origins h w n). \<not> isl (block_outcome cv ch n qm yx)"
    using res by blast
  show "C = map (\<lambda>yx. fst (projr (block_outcome cv ch n qm yx))) (origins h w n)"
    using res by simp
  show "F = foldl (\<lambda>P yx. set_block P (fst yx) (snd yx) n
                        (snd (projr (block_outcome cv ch n qm yx))))
                 (replicate h (replicate w 0)) (origins h w n)"
    using res by simp
qed


lemma process_blocks_shape:
  assumes "rectangular ch h w" and "0 < h"
    and "process_blocks cv ch n level quantization = Inr (F, C)"
  shows "rectangular F h w"
proof -
  have "map length F = map length (replicate h (replicate w (0::real)))"
    unfolding process_blocks_Inr(4) [OF assms] by (rule foldl_set_block_shape)
  then show ?thesis unfolding rectangular_iff by simp
qed

lemma process_blocks_cell:
  assumes ch: "rectangular ch h w" and h: "0 < h"
    and run: "process_blocks cv ch n level quantization = Inr (F, C)"
    and r: "r < h" and c: "c < w"
  defines "qm \<equiv> scaled_q_matrix cv quantization n level"
    and "y \<equiv> (r div n) * n" and "x \<equiv> (c div n) * n"
  shows "\<exists>Qz Wb. block_outcome cv ch n qm (y, x) = Inr (Qz, Wb)
           \<and> F ! r ! c = Wb ! (r - y) ! (c - x)"
proof -
  note facts = process_blocks_Inr [OF ch h run]
  have n: "0 < n" by (rule facts(1))
  have mem: "(y, x) \<in> set (origins h w n)" and cov: "covers n (y, x) r c"
    using origins_covers [OF n r c, of "(y, x)"] unfolding y_def x_def by simp_all
  have uniq: "\<forall>yx \<in> set (origins h w n). covers n yx r c \<longrightarrow> yx = (y, x)"
    using origins_covers [OF n r c] unfolding y_def x_def by blast
  from facts(2) mem have "\<not> isl (block_outcome cv ch n qm (y, x))"
    unfolding qm_def by blast
  then obtain Qz Wb where out: "block_outcome cv ch n qm (y, x) = Inr (Qz, Wb)"
    by (cases "block_outcome cv ch n qm (y, x)") auto
  let ?W = "\<lambda>yx. snd (projr (block_outcome cv ch n qm yx))"
  have r0: "r < length (replicate h (replicate w (0::real)))" using r by simp
  have c0: "c < length (replicate h (replicate w (0::real)) ! r)" using r c by simp
  have "F = foldl (\<lambda>P yx. set_block P (fst yx) (snd yx) n (?W yx))
                 (replicate h (replicate w 0)) (origins h w n)"
    using facts(4) unfolding qm_def .
  then have "F ! r ! c = ?W (y, x) ! (r - fst (y, x)) ! (c - snd (y, x))"
    using foldl_set_block_nth [OF r0 c0 uniq, of ?W] mem cov by simp
  with out show ?thesis by simp
qed

lemma np_round_cases: "np_round v = of_int \<lfloor>v\<rfloor> \<or> np_round v = of_int (\<lfloor>v\<rfloor> + 1)"
  unfolding np_round_def Let_def by auto

lemma np_round_error: "\<bar>np_round v - v\<bar> \<le> 1 / 2"
proof -
  have "of_int \<lfloor>v\<rfloor> \<le> v" and "v < of_int \<lfloor>v\<rfloor> + 1" by linarith+
  then show ?thesis unfolding np_round_def Let_def by (auto simp: abs_le_iff)
qed


lemma np_round_tie:
  assumes "v - of_int \<lfloor>v\<rfloor> = 1 / 2"
  shows "\<exists>z. np_round v = of_int z \<and> even z"
proof (cases "even \<lfloor>v\<rfloor>")
  case True
  then have "np_round v = of_int \<lfloor>v\<rfloor>"
    using assms unfolding np_round_def Let_def by simp
  with True show ?thesis by blast
next
  case False
  then have "np_round v = of_int (\<lfloor>v\<rfloor> + 1)"
    using assms unfolding np_round_def Let_def by simp
  moreover have "even (\<lfloor>v\<rfloor> + 1)" using False by simp
  ultimately show ?thesis by blast
qed

lemma np_round_int: "\<exists>z. np_round v = of_int z"
  using np_round_cases [of v] by blast



lemma select_q_matrix_rectangular:
  assumes "rectangular (resize cv base_q n) n n"
  shows "rectangular (select_q_matrix cv quantization n) n n"
proof -
  have "rectangular jpeg_luminance 8 8"
    unfolding rectangular_def jpeg_luminance_def by simp
  moreover have "rectangular (np_ones n) n n"
    unfolding rectangular_def np_ones_def by auto
  moreover have "rectangular (create_custom_quantization_matrix n) n n"
    unfolding rectangular_def create_custom_quantization_matrix_def by auto
  ultimately show ?thesis
    using assms rectangular_map_map [OF assms]
    unfolding select_q_matrix_def create_jpeg_quantization_matrix_def by auto
qed

lemma scaled_q_matrix_rectangular:
  "cv_contract cv n \<Longrightarrow> rectangular (scaled_q_matrix cv quantization n level) n n"
  unfolding cv_contract_def
  by (intro rectangular_scaled select_q_matrix_rectangular) simp


lemma block_offset:
  fixes n r h :: nat
  assumes "0 < n" and "r < h"
  shows "(r div n) * n < h" and "r - (r div n) * n < min n (h - (r div n) * n)"
    and "(r div n) * n + (r - (r div n) * n) = r"
proof -
  have le: "(r div n) * n \<le> r" by simp
  then show "(r div n) * n < h" using assms(2) by linarith
  have "r - (r div n) * n = r mod n" by (simp add: minus_div_mult_eq_mod)
  moreover have "r mod n < n" using assms(1) by simp
  ultimately show "r - (r div n) * n < min n (h - (r div n) * n)"
    using le assms(2) by linarith
  show "(r div n) * n + (r - (r div n) * n) = r" using le by simp
qed

lemma map_map_nth:
  "rectangular a h w \<Longrightarrow> i < h \<Longrightarrow> j < w \<Longrightarrow> map (map f) a ! i ! j = f (a ! i ! j)"
  using rectangular_length [of a h w] rectangular_nth [of a h w i] by simp

lemma process_channel_cell:
  assumes lib: "cv_contract cv n" and ch: "rectangular ch h w"
    and run: "process_channel_dct cv ch n level quantization = Inr (P, C)"
    and r: "r < h" and c: "c < w"
  defines "qm \<equiv> scaled_q_matrix cv quantization n level"
    and "y \<equiv> (r div n) * n" and "x \<equiv> (c div n) * n"
  defines "bh \<equiv> min n (h - y)" and "bw \<equiv> min n (w - x)"
  shows "\<exists>F D I. process_blocks cv ch n level quantization = Inr (F, C)
           \<and> P = map (map astype_uint8) F \<and> rectangular F h w
           \<and> dct cv (block_at ch n (y, x)) = Inr D \<and> rectangular D bh bw
           \<and> idct cv (dequantize (quantize D (top_left qm bh bw)) (top_left qm bh bw)) = Inr I
           \<and> rectangular I bh bw
           \<and> F ! r ! c = np_clip (I ! (r - y) ! (c - x) + 128) 0 255"
proof -
  have h: "0 < h" using r by simp
  from run obtain F where F: "process_blocks cv ch n level quantization = Inr (F, C)"
    and P: "P = map (map astype_uint8) F"
    unfolding process_channel_dct_def by (auto split: sum.splits)
  have n: "0 < n" using process_blocks_Inr(1) [OF ch h F] .
  have rF: "rectangular F h w" using ch h F by (rule process_blocks_shape)
  from process_blocks_cell [OF ch h F r c]
  obtain Qz Wb where out: "block_outcome cv ch n qm (y, x) = Inr (Qz, Wb)"
    and cell: "F ! r ! c = Wb ! (r - y) ! (c - x)"
    unfolding qm_def y_def x_def by blast
  have y: "y < h" and i: "r - y < bh"
    using block_offset [OF n r] unfolding y_def bh_def by simp_all
  have x: "x < w" and j: "c - x < bw"
    using block_offset [OF n c] unfolding x_def bw_def by simp_all
  have q: "rectangular qm n n"
    unfolding qm_def using lib by (rule scaled_q_matrix_rectangular)
  from lib have ds: "keeps_shape (dct cv)" and ids: "keeps_shape (idct cv)"
    unfolding cv_contract_def by simp_all
  from block_outcome_Inr [OF ds ids q ch y x out]
  obtain D I where D: "dct cv (block_at ch n (y, x)) = Inr D"
    and Qz: "Qz = quantize D (top_left qm bh bw)"
    and I: "idct cv (dequantize Qz (top_left qm bh bw)) = Inr I"
    and Wb: "Wb = add_128_clip I"
    and rD: "rectangular D bh bw" and rI: "rectangular I bh bw"
    unfolding bh_def bw_def by blast
  have "Wb ! (r - y) ! (c - x) = np_clip (I ! (r - y) ! (c - x) + 128) 0 255"
    unfolding Wb add_128_clip_def using map_map_nth [OF rI i j] .
  with cell have cellv: "F ! r ! c = np_clip (I ! (r - y) ! (c - x) + 128) 0 255"
    by simp
  note I' = I [unfolded Qz]
  show ?thesis
    by (intro exI [of _ F] exI [of _ D] exI [of _ I] conjI)
      (rule F P rF D rD I' rI cellv)+
qed

lemma cv_dct_shape: "map length (cv_dct X) = map length X"
  by (rule nth_equalityI) (simp_all add: cv_dct_def)

lemma cv_idct_shape: "map length (cv_idct X) = map length X"
  by (rule nth_equalityI) (simp_all add: cv_idct_def)

lemma cv_resize_linear_rectangular: "rectangular (cv_resize_linear src n) n n"
  unfolding cv_resize_linear_def rectangular_def Let_def by auto

lemma cv2_doc_contract: "cv_contract cv2_doc n"
  unfolding cv_contract_def keeps_shape_def cv2_doc_def
  by (auto simp: cv_dct_shape cv_idct_shape cv_resize_linear_rectangular)

lemma cv2_doc_never_raises: "never_raises cv2_doc"
  unfolding never_raises_def cv2_doc_def by simp

lemma block_outcome_total:
  assumes "never_raises cv"
  shows "\<not> isl (block_outcome cv ch n qm yx)"
proof -
  obtain D where D: "dct cv (block_at ch n yx) = Inr D"
    using assms unfolding never_raises_def
    by (cases "dct cv (block_at ch n yx)") (auto simp: isl_def)
  let ?q = "top_left qm (shape0 (block_at ch n yx)) (shape1 (block_at ch n yx))"
  obtain I where I: "idct cv (dequantize (quantize D ?q) ?q) = Inr I"
    using assms unfolding never_raises_def
    by (cases "idct cv (dequantize (quantize D ?q) ?q)") (auto simp: isl_def)
  show ?thesis unfolding block_outcome_def Let_def using D I by simp
qed

lemma process_channel_dct_total:
  assumes "never_raises cv" and "0 < n"
  shows "\<not> isl (process_channel_dct cv ch n level quantization)"
proof -
  let ?qm = "scaled_q_matrix cv quantization n level"
  have "\<not> isl (blocks_loop (block_step cv ch n ?qm) (origins (shape0 ch) (shape1 ch) n)
            (replicate (shape0 ch) (replicate (shape1 ch) 0), []))"
    by (rule blocks_loop_total) (simp add: block_outcome_total [OF assms(1)])
  then have "\<not> isl (process_blocks cv ch n level quantization)"
    unfolding process_blocks_def Let_def using assms(2) by simp
  then show ?thesis
    unfolding process_channel_dct_def by (auto split: sum.splits prod.splits)
qed

lemma not_isl_projr: "\<not> isl s \<Longrightarrow> s = Inr (fst (projr s), snd (projr s))"
  by (cases s) auto

text \<open>
  What the block loop does when the library returns on every block. For a plane of any
  height and width and any positive block size (under the library contract, and for a
  level other than 1.1, where the scaled matrix would be zero and numpy would divide by
  zero): exactly one iteration of the block loop
  covers a given pixel; the block of that iteration is the slice clipped to the plane,
  of \<open>min n (h - y)\<close> rows and \<open>min n (w - x)\<close> columns; it is quantized with the
  top-left submatrix of the scaled matrix of the same dimensions; and the pixel of the
  result is the value that this block wrote.
\<close>

lemma codec_covers_every_pixel_once:
  assumes "cv_contract cv n" and "rectangular ch h w"
    and "process_channel_dct cv ch n level quantization = Inr (P, C)"
    and "r < h" and "c < w"
    and "level_scale level \<noteq> 0"
  shows "length (filter (\<lambda>yx. covers n yx r c) (origins h w n)) = 1
       \<and> rectangular P h w
       \<and> (let y = (r div n) * n; x = (c div n) * n;
              bh = min n (h - y); bw = min n (w - x);
              qm = scaled_q_matrix cv quantization n level;
              qs = top_left qm bh bw
          in covers n (y, x) r c
             \<and> rectangular (block_at ch n (y, x)) bh bw
             \<and> rectangular qs bh bw
             \<and> qs ! (r - y) ! (c - x) = qm ! (r - y) ! (c - x)
             \<and> (\<exists>D I. dct cv (block_at ch n (y, x)) = Inr D
                   \<and> idct cv (dequantize (quantize D qs) qs) = Inr I
                   \<and> P ! r ! c = astype_uint8 (np_clip (I ! (r - y) ! (c - x) + 128) 0 255)))"
proof -
  define y x where "y = (r div n) * n" and "x = (c div n) * n"
  define bh bw where "bh = min n (h - y)" and "bw = min n (w - x)"
  define qm where "qm = scaled_q_matrix cv quantization n level"
  define qs where "qs = top_left qm bh bw"
  from process_channel_cell [OF assms(1-5)]
  obtain F D I where F: "process_blocks cv ch n level quantization = Inr (F, C)"
    and P: "P = map (map astype_uint8) F" and rF: "rectangular F h w"
    and D: "dct cv (block_at ch n (y, x)) = Inr D"
    and I: "idct cv (dequantize (quantize D qs) qs) = Inr I"
    and cell: "F ! r ! c = np_clip (I ! (r - y) ! (c - x) + 128) 0 255"
    unfolding y_def x_def bh_def bw_def qm_def qs_def by blast
  have h: "0 < h" using assms(4) by simp
  have n: "0 < n" using process_blocks_Inr(1) [OF assms(2) h F] .
  have once: "length (filter (\<lambda>yx. covers n yx r c) (origins h w n)) = 1"
    using n assms(4,5) by (rule covered_once)
  have rP: "rectangular P h w" unfolding P using rF by (rule rectangular_map_map)
  have cov: "covers n (y, x) r c"
    using origins_covers [OF n assms(4,5), of "(y, x)"] unfolding y_def x_def by simp
  have rB: "rectangular (block_at ch n (y, x)) bh bw"
    unfolding bh_def bw_def using assms(2) by (rule rectangular_block_at)
  have q: "rectangular qm n n"
    unfolding qm_def using assms(1) by (rule scaled_q_matrix_rectangular)
  have rqs: "rectangular qs bh bw"
    unfolding qs_def using q by (rule rectangular_top_left) (simp_all add: bh_def bw_def)
  have i: "r - y < bh" and j: "c - x < bw"
    using block_offset(2) [OF n assms(4)] block_offset(2) [OF n assms(5)]
    unfolding y_def x_def bh_def bw_def by simp_all
  have qent: "qs ! (r - y) ! (c - x) = qm ! (r - y) ! (c - x)"
    unfolding qs_def using q i _ j by (rule top_left_nth) (simp_all add: bh_def bw_def)
  have "P ! r ! c = astype_uint8 (F ! r ! c)"
    unfolding P using rF assms(4,5) by (rule map_map_nth)
  with cell have Pv: "P ! r ! c = astype_uint8 (np_clip (I ! (r - y) ! (c - x) + 128) 0 255)"
    by simp
  have "\<exists>D I. dct cv (block_at ch n (y, x)) = Inr D
          \<and> idct cv (dequantize (quantize D qs) qs) = Inr I
          \<and> P ! r ! c = astype_uint8 (np_clip (I ! (r - y) ! (c - x) + 128) 0 255)"
    using D I Pv by blast
  with once rP cov rB rqs qent show ?thesis
    unfolding Let_def y_def [symmetric] x_def [symmetric] bh_def [symmetric] bw_def [symmetric]
      qm_def [symmetric] qs_def [symmetric] by blast
qed

lemma rectangular_plane_5x6: "rectangular plane_5x6 5 6"
  unfolding rectangular_def plane_5x6_def by simp

lemma codec_covers_every_pixel_once_plane_5x6:
  "cv_contract cv2_doc 4 \<and> rectangular plane_5x6 5 6
   \<and> \<not> isl (process_channel_dct cv2_doc plane_5x6 4 1 ''Uniform'')
   \<and> (4::nat) < 5 \<and> (5::nat) < 6 \<and> level_scale 1 \<noteq> 0
   \<and> length (filter (\<lambda>yx. covers 4 yx 4 5) (origins 5 6 4)) = 1
   \<and> rectangular (fst (projr (process_channel_dct cv2_doc plane_5x6 4 1 ''Uniform''))) 5 6
   \<and> covers 4 (4, 4) 4 5
   \<and> rectangular (block_at plane_5x6 4 (4, 4)) 1 2"
proof -
  let ?run = "process_channel_dct cv2_doc plane_5x6 4 1 ''Uniform''"
  have ok: "\<not> isl ?run"
    by (rule process_channel_dct_total [OF cv2_doc_never_raises]) simp
  then have run: "?run = Inr (fst (projr ?run), snd (projr ?run))"
    by (rule not_isl_projr)
  from codec_covers_every_pixel_once
    [OF cv2_doc_contract rectangular_plane_5x6 run, of 4 5]
  show ?thesis using ok cv2_doc_contract rectangular_plane_5x6
    by (simp add: Let_def level_scale_def)
qed



section \<open>Properties of the pipeline\<close>

lemma is_bgr_Arr3:
  "is_bgr (Arr3 px) h w \<longleftrightarrow>
     0 < h \<and> 0 < w \<and> rectangular px h w \<and> (\<forall>row \<in> set px. \<forall>p \<in> set row. length p = 3)"
  unfolding is_bgr_def by simp

lemma is_bgr_cases:
  assumes "is_bgr img h w"
  obtains px where "img = Arr3 px" and "0 < h" and "0 < w" and "rectangular px h w"
    and "\<forall>row \<in> set px. \<forall>p \<in> set row. length p = 3"
  using assms unfolding is_bgr_def by (cases img) auto

lemma is_bgr_shape:
  assumes "is_bgr img h w"
  shows "shape img = [h, w, 3]" and "samples img \<noteq> []"
proof -
  from assms obtain px where img: "img = Arr3 px" and h: "0 < h" and w: "0 < w"
    and r: "rectangular px h w" and p: "\<forall>row \<in> set px. \<forall>p \<in> set row. length p = 3"
    by (rule is_bgr_cases)
  from r h obtain row rest where px: "px = row # rest" and lrow: "length row = w"
    unfolding rectangular_def by (cases px) auto
  from lrow w obtain p0 ps where row: "row = p0 # ps" by (cases row) auto
  have "length p0 = 3" using p px row by simp
  then show "shape img = [h, w, 3]" using img px row r lrow unfolding rectangular_def by auto
  from \<open>length p0 = 3\<close> have "p0 \<noteq> []" by auto
  then show "samples img \<noteq> []" using img px row by simp
qed

lemma cvt_color3_bgr:
  assumes "is_bgr img h w"
  shows "\<exists>out. cvt_color3 f img = Inr out \<and> is_bgr out h w"
proof -
  from assms obtain px where img: "img = Arr3 px" and h: "0 < h" and w: "0 < w"
    and r: "rectangular px h w" and p: "\<forall>row \<in> set px. \<forall>p \<in> set row. length p = 3"
    by (rule is_bgr_cases)
  let ?g = "\<lambda>p. case f (p ! 0, p ! 1, p ! 2) of (a, b, c) \<Rightarrow> [a, b, c]"
  have out: "cvt_color3 f img = Inr (Arr3 (map (map ?g) px))"
    using img p by simp
  have "length (?g p) = 3" for p by (simp split: prod.splits)
  then have "\<forall>row \<in> set (map (map ?g) px). \<forall>p \<in> set row. length p = 3" by auto
  then have "is_bgr (Arr3 (map (map ?g) px)) h w"
    unfolding is_bgr_Arr3 using h w rectangular_map_map [OF r] by blast
  with out show ?thesis by blast
qed

lemma cvt_bgr2gray_bgr:
  assumes "is_bgr img h w"
  shows "\<exists>p. cvt_bgr2gray cv img = Inr (Arr2 p) \<and> rectangular p h w"
proof -
  from assms obtain px where img: "img = Arr3 px"
    and r: "rectangular px h w" and p: "\<forall>row \<in> set px. \<forall>p \<in> set row. length p = 3"
    by (rule is_bgr_cases)
  show ?thesis using img p rectangular_map_map [OF r] by simp
qed

lemma cv_split_bgr:
  assumes "is_bgr img h w"
  shows "length (cv_split img) = 3" and "\<forall>p \<in> set (cv_split img). rectangular p h w"
proof -
  from assms obtain px where img: "img = Arr3 px" and r: "rectangular px h w"
    by (rule is_bgr_cases)
  have sh: "shape (Arr3 px) ! 2 = 3" using is_bgr_shape(1) [OF assms] img by simp
  show "length (cv_split img) = 3" using img sh by simp
  show "\<forall>p \<in> set (cv_split img). rectangular p h w"
    using img rectangular_map_map [OF r] by (auto simp del: shape.simps)
qed

lemma split_channels_bgr:
  assumes "is_bgr img h w"
  shows "\<exists>chs. split_channels cv cs img = Inr chs
           \<and> length chs = (if cs = ''Grayscale'' then 1 else 3)
           \<and> (\<forall>p \<in> set chs. rectangular p h w)"
proof -
  consider (y) "cs = ''YCbCr''" | (g) "cs = ''Grayscale''"
    | (rgb) "cs \<noteq> ''YCbCr''" "cs \<noteq> ''Grayscale''" by blast
  then show ?thesis
  proof cases
    case y
    from cvt_color3_bgr [OF assms, of "bgr2ycrcb cv"]
    obtain out where o: "cvt_color3 (bgr2ycrcb cv) img = Inr out" and b: "is_bgr out h w"
      by blast
    show ?thesis using y o cv_split_bgr [OF b] unfolding split_channels_def by simp
  next
    case g
    from cvt_bgr2gray_bgr [OF assms, of cv]
    obtain p where o: "cvt_bgr2gray cv img = Inr (Arr2 p)" and r: "rectangular p h w"
      by blast
    show ?thesis using g o r unfolding split_channels_def by simp
  next
    case rgb
    show ?thesis using rgb cv_split_bgr [OF assms] unfolding split_channels_def by simp
  qed
qed

lemma process_channel_shape:
  assumes "rectangular ch h w" and "0 < h"
    and "process_channel_dct cv ch n level quantization = Inr (P, C)"
  shows "rectangular P h w"
proof -
  from assms(3) obtain F where F: "process_blocks cv ch n level quantization = Inr (F, C)"
    and P: "P = map (map astype_uint8) F"
    unfolding process_channel_dct_def by (auto split: sum.splits)
  show ?thesis unfolding P
    using process_blocks_shape [OF assms(1,2) F] by (rule rectangular_map_map)
qed

lemma channels_loop_Inr:
  assumes "channels_loop cv n level q k ics (pcs, dcs, prog) = (prog', Inr (pcs', dcs'))"
    and "\<forall>ic \<in> set ics. rectangular (snd ic) h w" and "0 < h"
    and "\<forall>p \<in> set pcs. rectangular p h w"
  shows "prog' = prog @ map (\<lambda>ic. 20 + real (fst ic + 1) * 60 / real k) ics
       \<and> length pcs' = length pcs + length ics
       \<and> length dcs' = length dcs + length ics
       \<and> (\<forall>p \<in> set pcs'. rectangular p h w)"
  using assms
proof (induction ics arbitrary: pcs dcs prog)
  case Nil
  then show ?case by simp
next
  case (Cons ic ics)
  obtain i ch where ic: "ic = (i, ch)" by (cases ic)
  from Cons.prems(1) ic obtain P C where
    run: "process_channel_dct cv ch n level q = Inr (P, C)"
    and rest: "channels_loop cv n level q k ics
        (pcs @ [P], dcs @ [C], prog @ [20 + real (i + 1) * 60 / real k]) = (prog', Inr (pcs', dcs'))"
    by (auto split: sum.splits prod.splits)
  have "rectangular ch h w" using Cons.prems(2) ic by simp
  then have "rectangular P h w" using Cons.prems(3) run by (rule process_channel_shape)
  then have inv: "\<forall>p \<in> set (pcs @ [P]). rectangular p h w" using Cons.prems(4) by simp
  have tl: "\<forall>ic \<in> set ics. rectangular (snd ic) h w" using Cons.prems(2) by simp
  from Cons.IH [OF rest tl Cons.prems(3) inv] ic show ?case by simp
qed

lemma channels_loop_total:
  assumes "never_raises cv" and "0 < n"
  shows "\<exists>prog' r. channels_loop cv n level q k ics (pcs, dcs, prog) = (prog', Inr r)"
proof (induction ics arbitrary: pcs dcs prog)
  case Nil
  then show ?case by simp
next
  case (Cons ic ics)
  obtain i ch where ic: "ic = (i, ch)" by (cases ic)
  have "\<not> isl (process_channel_dct cv ch n level q)"
    using assms by (rule process_channel_dct_total)
  then obtain P C where "process_channel_dct cv ch n level q = Inr (P, C)"
    by (cases "process_channel_dct cv ch n level q") auto
  then show ?case using Cons.IH ic by simp
qed

lemma cv_merge_bgr:
  assumes "length pcs = 3" and "\<forall>p \<in> set pcs. rectangular p h w" and "0 < h" and "0 < w"
  shows "is_bgr (cv_merge pcs) h w"
proof -
  from assms(1) obtain p0 rest where pcs: "pcs = p0 # rest" by (cases pcs) auto
  then have "rectangular p0 h w" using assms(2) by simp
  then have sh: "shape0 (hd pcs) = h" "shape1 (hd pcs) = w"
    using shape_rectangular [of p0 h w] assms(3) pcs by simp_all
  show ?thesis
    unfolding cv_merge_def sh is_bgr_Arr3 rectangular_def using assms by auto
qed

lemma cvt_gray2bgr_bgr:
  assumes "rectangular p h w" and "0 < h" and "0 < w"
  shows "\<exists>out. cvt_gray2bgr (Arr2 p) = Inr out \<and> is_bgr out h w"
proof -
  have "is_bgr (Arr3 (map (map (\<lambda>g. [g, g, g])) p)) h w"
    unfolding is_bgr_Arr3 using assms rectangular_map_map [OF assms(1)] by auto
  then show ?thesis by simp
qed

lemma merge_channels_bgr:
  assumes "length pcs = (if cs = ''Grayscale'' then 1 else 3)"
    and "\<forall>p \<in> set pcs. rectangular p h w" and "0 < h" and "0 < w"
  shows "\<exists>out. merge_channels cv cs pcs = Inr out \<and> is_bgr out h w"
proof (cases "cs = ''Grayscale''")
  case True
  then have len: "length pcs = 1" using assms(1) by simp
  then have "pcs ! 0 \<in> set pcs" by simp
  then have "rectangular (pcs ! 0) h w" using assms(2) by blast
  from cvt_gray2bgr_bgr [OF this assms(3,4)] show ?thesis
    using True len unfolding merge_channels_def Let_def by simp
next
  case False
  then have len: "length pcs = 3" using assms(1) by simp
  have m: "is_bgr (cv_merge pcs) h w" using len assms(2-4) by (rule cv_merge_bgr)
  show ?thesis
  proof (cases "cs = ''YCbCr''")
    case True
    from cvt_color3_bgr [OF m, of "ycrcb2bgr cv"] show ?thesis
      using True len unfolding merge_channels_def Let_def by simp
  next
    case no: False
    show ?thesis using False no len m unfolding merge_channels_def Let_def by simp
  qed
qed

lemma calculate_metrics_Inr:
  assumes "calculate_metrics cv s = Inr s'"
  shows "\<exists>p r. s' = s\<lparr>psnr_value := p, compression_ratio := r\<rparr>"
  using assms unfolding calculate_metrics_def
  by (auto split: option.splits sum.splits if_splits)

lemma ratio_of_level_total: "level \<noteq> 200 \<Longrightarrow> \<exists>r. ratio_of_level level = Inr r"
proof -
  assume "level \<noteq> 200"
  then have "real_of_int level \<noteq> 200" by simp
  then have "1 + (100 - real_of_int level) / 100 \<noteq> 0" by argo
  then show ?thesis unfolding ratio_of_level_def Let_def by simp
qed

lemma calculate_metrics_total:
  assumes "original_image s = Some a" and "processed_image s = Some b"
    and "is_bgr a h w" and "is_bgr b h w" and "compression_level s \<noteq> 200"
  shows "\<exists>s'. calculate_metrics cv s = Inr s'"
proof -
  have sh: "shape a = [h, w, 3]" "shape b = [h, w, 3]" and ne: "samples a \<noteq> []"
    using is_bgr_shape assms(3,4) by simp_all
  from ratio_of_level_total [OF assms(5)] obtain r where "ratio_of_level (compression_level s) = Inr r"
    by blast
  then show ?thesis
    unfolding calculate_metrics_def psnr_pair_def using assms(1,2) sh ne by simp
qed

lemma enumerate_progress:
  "map (\<lambda>ic. 20 + real (fst ic + 1) * 60 / real k) (enumerate 0 chs)
     = map (\<lambda>i. 20 + real (i + 1) * 60 / real k) [0..<length chs]"
proof -
  have "map (\<lambda>i. 20 + real (i + 1) * 60 / real k) (map fst (enumerate 0 chs))
      = map (\<lambda>ic. 20 + real (fst ic + 1) * 60 / real k) (enumerate 0 chs)"
    by (simp only: map_map comp_def)
  moreover have "map fst (enumerate 0 chs) = [0..<length chs]" by simp
  ultimately show ?thesis by simp
qed

lemma apply_dct_thread_Completed:
  assumes img: "original_image s = Some img" and bgr: "is_bgr img h w"
    and fin: "status_message (apply_dct_thread cv s level n cs q) = Completed"
  defines "k \<equiv> (if cs = ''Grayscale'' then 1 else 3 :: nat)"
  defines "R \<equiv> apply_dct_thread cv s level n cs q"
  shows "progress_var R = progress_var s @ [10, 20]
            @ map (\<lambda>i. 20 + real (i + 1) * 60 / real k) [0..<k]"
    and "\<exists>out. processed_image R = Some out \<and> is_bgr out h w"
    and "length (dct_coefficients R) = k"
    and "original_image R = Some img"
proof -
  from bgr have h: "0 < h" and w: "0 < w" by (auto elim: is_bgr_cases)
  from split_channels_bgr [OF bgr, of cv cs]
  obtain chs where split: "split_channels cv cs img = Inr chs" and len: "length chs = k"
    and rect: "\<forall>p \<in> set chs. rectangular p h w"
    unfolding k_def by blast
  let ?s1 = "s\<lparr>progress_var := progress_var s @ [10]\<rparr>"
  let ?s2 = "?s1\<lparr>progress_var := progress_var ?s1 @ [20]\<rparr>"
  obtain prog res where loop:
    "channels_loop cv n level q (length chs) (enumerate 0 chs) ([], [], progress_var ?s2) = (prog, res)"
    by (cases "channels_loop cv n level q (length chs) (enumerate 0 chs) ([], [], progress_var ?s2)")
  have main: "progress_var R = progress_var s @ [10, 20]
            @ map (\<lambda>i. 20 + real (i + 1) * 60 / real k) [0..<k]
        \<and> (\<exists>out. processed_image R = Some out \<and> is_bgr out h w)
        \<and> length (dct_coefficients R) = k \<and> original_image R = Some img"
  proof (cases res)
    case (Inl e)
    then have "status_message R = Failed"
      unfolding R_def apply_dct_thread_def Let_def using img split loop by simp
    with fin show ?thesis unfolding R_def by simp
  next
    case (Inr pd)
    obtain pcs dcs where pd: "pd = (pcs, dcs)" by (cases pd)
    have ics: "\<forall>ic \<in> set (enumerate 0 chs). rectangular (snd ic) h w"
      using rect by (auto simp: in_set_enumerate_eq)
    from channels_loop_Inr [OF loop [unfolded Inr pd] ics h, unfolded enumerate_progress len]
    have prog: "prog = progress_var ?s2 @ map (\<lambda>i. 20 + real (i + 1) * 60 / real k) [0..<k]"
      and lp: "length pcs = k" and ld: "length dcs = k"
      and rp: "\<forall>p \<in> set pcs. rectangular p h w"
      using len by simp_all
    from merge_channels_bgr [OF lp [unfolded k_def] rp h w, of cv]
    obtain out where mer: "merge_channels cv cs pcs = Inr out" and ob: "is_bgr out h w"
      by blast
    let ?s4 = "?s2\<lparr>progress_var := prog, processed_image := Some out, dct_coefficients := dcs\<rparr>"
    have Rcase: "R = (case calculate_metrics cv ?s4 of
                        Inl e \<Rightarrow> ?s4\<lparr>status_message := Failed\<rparr>
                      | Inr s5 \<Rightarrow> s5\<lparr>status_message := Completed\<rparr>)"
      unfolding R_def apply_dct_thread_def Let_def using img split loop Inr pd mer by simp
    show ?thesis
    proof (cases "calculate_metrics cv ?s4")
      case (Inl e)
      then have "status_message R = Failed" using Rcase by simp
      with fin show ?thesis unfolding R_def by simp
    next
      case (Inr s5)
      from calculate_metrics_Inr [OF Inr] obtain p r where
        s5: "s5 = ?s4\<lparr>psnr_value := p, compression_ratio := r\<rparr>" by blast
      have "R = s5\<lparr>status_message := Completed\<rparr>" using Rcase Inr by simp
      then show ?thesis using s5 prog ob ld img by simp
    qed
  qed
  from main show "progress_var R = progress_var s @ [10, 20]
            @ map (\<lambda>i. 20 + real (i + 1) * 60 / real k) [0..<k]"
    and "\<exists>out. processed_image R = Some out \<and> is_bgr out h w"
    and "length (dct_coefficients R) = k"
    and "original_image R = Some img"
    by blast+
qed

lemma apply_dct_thread_total:
  assumes nr: "never_raises cv" and n: "0 < n"
    and img: "original_image s = Some img" and bgr: "is_bgr img h w"
    and lvl: "compression_level s \<noteq> 200"
  shows "status_message (apply_dct_thread cv s level n cs q) = Completed"
proof -
  from bgr have h: "0 < h" and w: "0 < w" by (auto elim: is_bgr_cases)
  from split_channels_bgr [OF bgr, of cv cs]
  obtain chs where split: "split_channels cv cs img = Inr chs"
    and len: "length chs = (if cs = ''Grayscale'' then 1 else 3)"
    and rect: "\<forall>p \<in> set chs. rectangular p h w"
    by blast
  let ?s1 = "s\<lparr>progress_var := progress_var s @ [10]\<rparr>"
  let ?s2 = "?s1\<lparr>progress_var := progress_var ?s1 @ [20]\<rparr>"
  from channels_loop_total [OF nr n]
  obtain prog pd where loop0:
    "channels_loop cv n level q (length chs) (enumerate 0 chs) ([], [], progress_var ?s2) = (prog, Inr pd)"
    by blast
  obtain pcs dcs where pd: "pd = (pcs, dcs)" by (cases pd)
  note loop = loop0 [unfolded pd]
  have ics: "\<forall>ic \<in> set (enumerate 0 chs). rectangular (snd ic) h w"
    using rect by (auto simp: in_set_enumerate_eq)
  from channels_loop_Inr [OF loop ics h]
  have lp: "length pcs = (if cs = ''Grayscale'' then 1 else 3)"
    and rp: "\<forall>p \<in> set pcs. rectangular p h w"
    using len by simp_all
  from merge_channels_bgr [OF lp rp h w, of cv]
  obtain out where mer: "merge_channels cv cs pcs = Inr out" and ob: "is_bgr out h w"
    by blast
  let ?s4 = "?s2\<lparr>progress_var := prog, processed_image := Some out, dct_coefficients := dcs\<rparr>"
  have "\<exists>s5. calculate_metrics cv ?s4 = Inr s5"
    by (rule calculate_metrics_total [of _ img out h w]) (simp_all add: img bgr ob lvl)
  then obtain s5 where cm: "calculate_metrics cv ?s4 = Inr s5" by blast
  show ?thesis
    unfolding apply_dct_thread_def Let_def using img split loop mer cm by simp
qed

lemma apply_dct_Some:
  assumes "original_image s = Some img"
  shows "apply_dct cv s n cs q =
    apply_dct_thread cv (s\<lparr>progress_var := progress_var s @ [0], status_message := Applying\<rparr>)
      (real_of_int (compression_level s) / 100) n cs q"
  using assms unfolding apply_dct_def Let_def by simp

lemma apply_dct_Completed:
  assumes img: "original_image s = Some img" and bgr: "is_bgr img h w"
    and fin: "status_message (apply_dct cv s n cs q) = Completed"
  shows "progress_var (apply_dct cv s n cs q) = progress_var s @ [0, 10, 20]
            @ map (\<lambda>i. 20 + real (i + 1) * 60 / real (plane_count cs)) [0..<plane_count cs]"
    and "\<exists>out. processed_image (apply_dct cv s n cs q) = Some out \<and> is_bgr out h w"
    and "length (dct_coefficients (apply_dct cv s n cs q)) = plane_count cs"
proof -
  let ?s0 = "s\<lparr>progress_var := progress_var s @ [0], status_message := Applying\<rparr>"
  have img0: "original_image ?s0 = Some img" using img by simp
  note eq = apply_dct_Some [OF img, of cv n cs q]
  note facts = apply_dct_thread_Completed [OF img0 bgr fin [unfolded eq]]
  show "progress_var (apply_dct cv s n cs q) = progress_var s @ [0, 10, 20]
            @ map (\<lambda>i. 20 + real (i + 1) * 60 / real (plane_count cs)) [0..<plane_count cs]"
    unfolding eq plane_count_def using facts(1) by simp
  show "\<exists>out. processed_image (apply_dct cv s n cs q) = Some out \<and> is_bgr out h w"
    unfolding eq using facts(2) .
  show "length (dct_coefficients (apply_dct cv s n cs q)) = plane_count cs"
    unfolding eq plane_count_def using facts(3) .
qed

lemma apply_dct_total:
  assumes "never_raises cv" and "0 < n"
    and img: "original_image s = Some img" and "is_bgr img h w"
    and "compression_level s \<noteq> 200"
  shows "status_message (apply_dct cv s n cs q) = Completed"
  unfolding apply_dct_Some [OF img]
  by (rule apply_dct_thread_total [OF assms(1,2) _ assms(4)]) (simp_all add: img assms(5))

lemma is_bgr_image_2x2: "is_bgr image_2x2 2 2"
  unfolding is_bgr_def image_2x2_def rectangular_def by simp

lemma app0_image: "original_image app0 = Some image_2x2"
  unfolding app0_def by simp

text \<open>
  C10. For every colour image (as imread returns it) and every colour model string, a
  run that completes leaves as reconstructed image an array of the same height and
  width with exactly three channels; this holds for ''Grayscale'', where one plane is
  processed, as for the three-plane models.
\<close>

theorem reconstructed_image_has_three_channels:
  assumes "original_image s = Some img" and "is_bgr img h w"
    and "status_message (apply_dct cv s n color_space quantization) = Completed"
  shows "\<exists>out. processed_image (apply_dct cv s n color_space quantization) = Some out
           \<and> is_bgr out h w \<and> shape out = [h, w, 3]
           \<and> length (dct_coefficients (apply_dct cv s n color_space quantization))
               = plane_count color_space"
proof -
  from apply_dct_Completed(2) [OF assms]
  obtain out where o: "processed_image (apply_dct cv s n color_space quantization) = Some out"
    and b: "is_bgr out h w" by blast
  from is_bgr_shape(1) [OF b] apply_dct_Completed(3) [OF assms] o b show ?thesis by blast
qed

theorem reconstructed_image_has_three_channels_witness:
  "original_image app0 = Some image_2x2 \<and> is_bgr image_2x2 2 2
   \<and> status_message (apply_dct cv2_doc app0 4 ''Grayscale'' ''Standard JPEG'') = Completed
   \<and> (\<exists>out. processed_image (apply_dct cv2_doc app0 4 ''Grayscale'' ''Standard JPEG'') = Some out
           \<and> is_bgr out 2 2 \<and> shape out = [2, 2, 3]
           \<and> length (dct_coefficients (apply_dct cv2_doc app0 4 ''Grayscale'' ''Standard JPEG''))
               = plane_count ''Grayscale'')"
proof -
  have lvl: "compression_level app0 \<noteq> 200" unfolding app0_def by simp
  have fin: "status_message (apply_dct cv2_doc app0 4 ''Grayscale'' ''Standard JPEG'') = Completed"
    by (rule apply_dct_total [OF cv2_doc_never_raises _ app0_image is_bgr_image_2x2 lvl]) simp
  from reconstructed_image_has_three_channels [OF app0_image is_bgr_image_2x2 fin]
  show ?thesis using app0_image is_bgr_image_2x2 fin by blast
qed

lemma progress_values_plane_count:
  "map (\<lambda>i. 20 + real (i + 1) * 60 / real (plane_count cs)) [0..<plane_count cs]
     = (if cs = ''Grayscale'' then [80] else [40, 60, 80])"
  unfolding plane_count_def by (simp add: upt_rec)

text \<open>
  C9 as amended. In a run that completes, the values written to the progress variable
  are 0, 10, 20 and then 20 + 60 (i + 1) / k after plane i of k; as fractions of the
  maximum 100 of the bar they never decrease and lie in [0,1]; the last one is 0.8.
\<close>

theorem progress_nondecreasing_ends_at_80:
  assumes "original_image s = Some img" and "is_bgr img h w"
    and "status_message (apply_dct cv s n color_space quantization) = Completed"
  shows "\<exists>new. progress_var (apply_dct cv s n color_space quantization) = progress_var s @ new
           \<and> new = [0, 10, 20] @ map (\<lambda>i. 20 + real (i + 1) * 60 / real (plane_count color_space))
                                     [0..<plane_count color_space]
           \<and> sorted (map progress_fraction new)
           \<and> (\<forall>v \<in> set new. 0 \<le> progress_fraction v \<and> progress_fraction v \<le> 1)
           \<and> progress_fraction (last new) = 4 / 5"
proof -
  let ?new = "[0, 10, 20] @ map (\<lambda>i. 20 + real (i + 1) * 60 / real (plane_count color_space))
                                     [0..<plane_count color_space]"
  have eq: "progress_var (apply_dct cv s n color_space quantization) = progress_var s @ ?new"
    using apply_dct_Completed(1) [OF assms] by simp
  have val: "?new = (if color_space = ''Grayscale'' then [0, 10, 20, 80] else [0, 10, 20, 40, 60, 80])"
    unfolding progress_values_plane_count by simp
  have "sorted (map progress_fraction ?new)"
    unfolding val progress_fraction_def by simp
  moreover have "\<forall>v \<in> set ?new. 0 \<le> progress_fraction v \<and> progress_fraction v \<le> 1"
    unfolding val progress_fraction_def by simp
  moreover have "progress_fraction (last ?new) = 4 / 5"
    unfolding val progress_fraction_def by simp
  ultimately show ?thesis using eq by blast
qed

theorem progress_nondecreasing_ends_at_80_witness:
  "original_image app0 = Some image_2x2 \<and> is_bgr image_2x2 2 2
   \<and> status_message (apply_dct cv2_doc app0 8 ''YCbCr'' ''Custom'') = Completed
   \<and> progress_var (apply_dct cv2_doc app0 8 ''YCbCr'' ''Custom'') = [0, 10, 20, 40, 60, 80]"
proof -
  have lvl: "compression_level app0 \<noteq> 200" unfolding app0_def by simp
  have fin: "status_message (apply_dct cv2_doc app0 8 ''YCbCr'' ''Custom'') = Completed"
    by (rule apply_dct_total [OF cv2_doc_never_raises _ app0_image is_bgr_image_2x2 lvl]) simp
  from progress_nondecreasing_ends_at_80 [OF app0_image is_bgr_image_2x2 fin]
  obtain new where "progress_var (apply_dct cv2_doc app0 8 ''YCbCr'' ''Custom'') = progress_var app0 @ new"
    and "new = [0, 10, 20] @ map (\<lambda>i. 20 + real (i + 1) * 60 / real (plane_count ''YCbCr''))
                                     [0..<plane_count ''YCbCr'']"
    by blast
  then have "progress_var (apply_dct cv2_doc app0 8 ''YCbCr'' ''Custom'') = [0, 10, 20, 40, 60, 80]"
    unfolding progress_values_plane_count by (simp add: app0_def)
  then show ?thesis using app0_image is_bgr_image_2x2 fin by blast
qed

theorem progress_final_value_counterexample:
  "status_message (apply_dct cv2_doc app0 8 ''RGB'' ''Uniform'') = Completed
   \<and> progress_fraction (last (progress_var (apply_dct cv2_doc app0 8 ''RGB'' ''Uniform''))) \<noteq> 1"
proof -
  have lvl: "compression_level app0 \<noteq> 200" unfolding app0_def by simp
  have fin: "status_message (apply_dct cv2_doc app0 8 ''RGB'' ''Uniform'') = Completed"
    by (rule apply_dct_total [OF cv2_doc_never_raises _ app0_image is_bgr_image_2x2 lvl]) simp
  have "progress_var (apply_dct cv2_doc app0 8 ''RGB'' ''Uniform'') = [0, 10, 20, 40, 60, 80]"
    using apply_dct_Completed(1) [OF app0_image is_bgr_image_2x2 fin]
    unfolding progress_values_plane_count by (simp add: app0_def)
  then show ?thesis using fin by (simp add: progress_fraction_def)
qed




section \<open>The store model refines the block loop\<close>

lemma new_array_simps [simp]:
  "fst (new_array m st) = fresh st"
  "arrays (snd (new_array m st)) = (arrays st)(fresh st := m)"
  "fresh (snd (new_array m st)) = Suc (fresh st)"
  unfolding new_array_def by simp_all

lemma in_place_simps [simp]:
  "arrays (in_place a f st) = (arrays st)(a := f (arrays st a))"
  "fresh (in_place a f st) = fresh st"
  unfolding in_place_def by simp_all

lemma block_body_store_outcome:
  assumes q: "qa < fresh st" and p: "pa < fresh st"
  shows "case block_outcome cv ch n (arrays st qa) yx of
           Inl e \<Rightarrow> block_body_store cv ch n qa pa yx (st, coeffs) = Inl e
         | Inr (Qz, Wb) \<Rightarrow>
             (\<exists>st'. block_body_store cv ch n qa pa yx (st, coeffs)
                        = Inr (st', coeffs @ [fresh st + 3])
                 \<and> fresh st' = fresh st + 7
                 \<and> arrays st' (fresh st + 3) = Qz
                 \<and> arrays st' pa = set_block (arrays st pa) (fst yx) (snd yx) n Wb
                 \<and> (\<forall>a < fresh st. a \<noteq> pa \<longrightarrow> arrays st' a = arrays st a))"
proof -
  let ?f = "fresh st"
  let ?B = "map (map (\<lambda>v. astype_float32 v - 128)) (slice2 ch (fst yx) (snd yx) n)"
  have ne: "qa \<noteq> ?f" "qa \<noteq> Suc ?f" "qa \<noteq> Suc (Suc ?f)" "qa \<noteq> Suc (Suc (Suc ?f))"
    "pa \<noteq> ?f" "pa \<noteq> Suc ?f" "pa \<noteq> Suc (Suc ?f)" "pa \<noteq> Suc (Suc (Suc ?f))"
    "pa \<noteq> Suc (Suc (Suc (Suc ?f)))" "pa \<noteq> Suc (Suc (Suc (Suc (Suc ?f))))"
    "pa \<noteq> Suc (Suc (Suc (Suc (Suc (Suc ?f)))))"
    using q p by simp_all
  show ?thesis
  proof (cases "dct cv ?B")
    case (Inl e)
    then show ?thesis
      unfolding block_outcome_def block_body_store_def block_at_def Let_def split_def
      by (simp add: comp_def)
  next
    case D: (Inr D)
    let ?q = "top_left (arrays st qa) (shape0 ?B) (shape1 ?B)"
    show ?thesis
    proof (cases "idct cv (dequantize (quantize D ?q) ?q)")
      case (Inl e)
      then show ?thesis
        unfolding block_outcome_def block_body_store_def block_at_def Let_def split_def
        using D ne by (simp add: comp_def)
    next
      case I: (Inr I)
      show ?thesis
        unfolding block_outcome_def block_body_store_def block_at_def Let_def split_def
        using D I ne by (simp add: comp_def add_128_clip_def numeral_eq_Suc)
    qed
  qed
qed


lemma blocks_loop_store:
  assumes "blocks_loop (block_body_store cv ch n qa pa) os (st, coeffs) = Inr (st', coeffs')"
    and "qa < fresh st" and "pa < fresh st" and "qa \<noteq> pa"
    and "\<forall>a \<in> set coeffs. a < fresh st \<and> a \<noteq> pa \<and> a \<noteq> qa" and "distinct coeffs"
  shows "blocks_loop (block_step cv ch n (arrays st qa)) os (arrays st pa, map (arrays st) coeffs)
           = Inr (arrays st' pa, map (arrays st') coeffs')
       \<and> distinct coeffs' \<and> pa \<notin> set coeffs' \<and> qa \<notin> set coeffs'
       \<and> arrays st' qa = arrays st qa"
  using assms
proof (induction os arbitrary: st coeffs)
  case Nil
  then show ?case by auto
next
  case (Cons yx os)
  note body = block_body_store_outcome [OF Cons.prems(2,3), of cv ch n yx coeffs]
  show ?case
  proof (cases "block_outcome cv ch n (arrays st qa) yx")
    case (Inl e)
    with body have "block_body_store cv ch n qa pa yx (st, coeffs) = Inl e" by simp
    with Cons.prems(1) show ?thesis by simp
  next
    case (Inr QW)
    obtain Qz Wb where QW: "QW = (Qz, Wb)" by (cases QW)
    from body Inr QW obtain st1 where
      b1: "block_body_store cv ch n qa pa yx (st, coeffs) = Inr (st1, coeffs @ [fresh st + 3])"
      and f1: "fresh st1 = fresh st + 7"
      and a1: "arrays st1 (fresh st + 3) = Qz"
      and p1: "arrays st1 pa = set_block (arrays st pa) (fst yx) (snd yx) n Wb"
      and o1: "\<forall>a < fresh st. a \<noteq> pa \<longrightarrow> arrays st1 a = arrays st a"
      by auto
    from Cons.prems(1) b1 have rest:
      "blocks_loop (block_body_store cv ch n qa pa) os (st1, coeffs @ [fresh st + 3]) = Inr (st', coeffs')"
      by simp
    have q1: "qa < fresh st1" and pp1: "pa < fresh st1"
      using Cons.prems(2,3) f1 by simp_all
    have c1: "\<forall>a \<in> set (coeffs @ [fresh st + 3]). a < fresh st1 \<and> a \<noteq> pa \<and> a \<noteq> qa"
      using Cons.prems(2,3,5) f1 by auto
    have d1: "distinct (coeffs @ [fresh st + 3])"
      using Cons.prems(5,6) by auto
    have qeq: "arrays st1 qa = arrays st qa"
      using o1 Cons.prems(2,4) by simp
    have ceq: "map (arrays st1) (coeffs @ [fresh st + 3]) = map (arrays st) coeffs @ [Qz]"
      using o1 a1 Cons.prems(5) by simp
    have step: "block_step cv ch n (arrays st qa) yx (arrays st pa, map (arrays st) coeffs)
        = Inr (arrays st1 pa, map (arrays st1) (coeffs @ [fresh st + 3]))"
      unfolding block_step_def ceq p1 using Inr QW by simp
    from Cons.IH [OF rest q1 pp1 Cons.prems(4) c1 d1] step qeq show ?thesis by simp
  qed
qed

lemma process_blocks_store_refines:
  assumes "process_blocks_store cv ch n level quantization = Inr (st, pa, coeffs)"
  shows "process_blocks cv ch n level quantization = Inr (arrays st pa, map (arrays st) coeffs)
       \<and> distinct coeffs \<and> pa \<notin> set coeffs"
proof -
  let ?P0 = "replicate (shape0 ch) (replicate (shape1 ch) (0::real))"
  let ?qm = "scaled_q_matrix cv quantization n level"
  let ?st2 = "snd (new_array ?qm (snd (new_array ?P0 \<lparr>arrays = (\<lambda>a. []), fresh = 0\<rparr>)))"
  from assms have n: "n \<noteq> 0"
    unfolding process_blocks_store_def Let_def split_def by (auto split: if_splits)
  with assms have loop: "blocks_loop (block_body_store cv ch n 1 0)
      (origins (shape0 ch) (shape1 ch) n) (?st2, []) = Inr (st, coeffs)" and pa: "pa = 0"
    unfolding process_blocks_store_def Let_def split_def
    by (auto split: sum.splits)
  have "blocks_loop (block_step cv ch n (arrays ?st2 1)) (origins (shape0 ch) (shape1 ch) n)
           (arrays ?st2 0, map (arrays ?st2) [])
           = Inr (arrays st 0, map (arrays st) coeffs)
       \<and> distinct coeffs \<and> 0 \<notin> set coeffs \<and> 1 \<notin> set coeffs
       \<and> arrays st 1 = arrays ?st2 1"
    by (rule blocks_loop_store [OF loop]) simp_all
  then show ?thesis
    unfolding process_blocks_def Let_def pa using n by simp
qed

lemma blocks_loop_store_total:
  assumes "never_raises cv" and "qa < fresh st" and "pa < fresh st"
  shows "\<not> isl (blocks_loop (block_body_store cv ch n qa pa) os (st, coeffs))"
  using assms(2,3)
proof (induction os arbitrary: st coeffs)
  case Nil
  then show ?case by simp
next
  case (Cons yx os)
  note body = block_body_store_outcome [OF Cons.prems, of cv ch n yx coeffs]
  have "\<not> isl (block_outcome cv ch n (arrays st qa) yx)"
    using assms(1) by (rule block_outcome_total)
  then obtain Qz Wb where "block_outcome cv ch n (arrays st qa) yx = Inr (Qz, Wb)"
    by (cases "block_outcome cv ch n (arrays st qa) yx") auto
  with body obtain st1 where
    b1: "block_body_store cv ch n qa pa yx (st, coeffs) = Inr (st1, coeffs @ [fresh st + 3])"
    and f1: "fresh st1 = fresh st + 7"
    by auto
  have "qa < fresh st1" and "pa < fresh st1" using Cons.prems f1 by simp_all
  from Cons.IH [OF this] show ?case using b1 by simp
qed

lemma process_blocks_store_total:
  assumes "never_raises cv" and "0 < n"
  shows "\<not> isl (process_blocks_store cv ch n level quantization)"
proof -
  let ?P0 = "replicate (shape0 ch) (replicate (shape1 ch) (0::real))"
  let ?qm = "scaled_q_matrix cv quantization n level"
  let ?st2 = "snd (new_array ?qm (snd (new_array ?P0 \<lparr>arrays = (\<lambda>a. []), fresh = 0\<rparr>)))"
  have "\<not> isl (blocks_loop (block_body_store cv ch n 1 0)
      (origins (shape0 ch) (shape1 ch) n) (?st2, []))"
    by (rule blocks_loop_store_total [OF assms(1)]) simp_all
  then show ?thesis
    unfolding process_blocks_store_def Let_def split_def using assms(2)
    by (auto split: sum.splits)
qed

lemma quantize_nth:
  assumes "rectangular D bh bw" and "rectangular qs bh bw" and "i < bh" and "j < bw"
  shows "quantize D qs ! i ! j = np_round (D ! i ! j / qs ! i ! j)"
  unfolding quantize_def using assms by (rule map2_map2_nth)

lemma dequantize_nth:
  assumes "rectangular Q bh bw" and "rectangular qs bh bw" and "i < bh" and "j < bw"
  shows "dequantize Q qs ! i ! j = Q ! i ! j * qs ! i ! j"
  unfolding dequantize_def using assms by (rule map2_map2_nth)

lemma rectangular_nth_mem:
  assumes "rectangular a h w" and "i < h" and "j < w"
  shows "a ! i \<in> set a" and "a ! i ! j \<in> set (a ! i)"
  using assms rectangular_length [OF assms(1)] rectangular_nth [OF assms(1,2)] by simp_all

lemma process_blocks_archive:
  assumes lib: "cv_contract cv n" and ch: "rectangular ch h w" and h: "0 < h"
    and run: "process_blocks cv ch n level quantization = Inr (F, C)"
    and k: "k < length (origins h w n)"
  defines "qm \<equiv> scaled_q_matrix cv quantization n level"
    and "yx \<equiv> origins h w n ! k"
  defines "bh \<equiv> min n (h - fst yx)" and "bw \<equiv> min n (w - snd yx)"
  shows "length C = length (origins h w n)"
    and "\<exists>D I. dct cv (block_at ch n yx) = Inr D
           \<and> C ! k = quantize D (top_left qm bh bw)
           \<and> idct cv (dequantize (quantize D (top_left qm bh bw)) (top_left qm bh bw)) = Inr I
           \<and> rectangular D bh bw"
proof -
  note facts = process_blocks_Inr [OF ch h run]
  show "length C = length (origins h w n)" unfolding facts(3) by simp
  have n: "0 < n" by (rule facts(1))
  have mem: "yx \<in> set (origins h w n)" unfolding yx_def using k by simp
  then have y: "fst yx < h" and x: "snd yx < w"
    using origins_in_range [OF n] by simp_all
  from facts(2) mem have "\<not> isl (block_outcome cv ch n qm yx)" unfolding qm_def by blast
  then obtain Qz Wb where out: "block_outcome cv ch n qm (fst yx, snd yx) = Inr (Qz, Wb)"
    by (cases "block_outcome cv ch n qm yx") auto
  have Ck: "C ! k = Qz"
    unfolding facts(3) using k out by (simp add: qm_def yx_def)
  have q: "rectangular qm n n"
    unfolding qm_def using lib by (rule scaled_q_matrix_rectangular)
  from lib have ds: "keeps_shape (dct cv)" and ids: "keeps_shape (idct cv)"
    unfolding cv_contract_def by simp_all
  from block_outcome_Inr [OF ds ids q ch y x out]
  obtain D I where D: "dct cv (block_at ch n (fst yx, snd yx)) = Inr D"
    and Qz: "Qz = quantize D (top_left qm bh bw)"
    and I: "idct cv (dequantize Qz (top_left qm bh bw)) = Inr I"
    and rD: "rectangular D bh bw"
    unfolding bh_def bw_def by blast
  show "\<exists>D I. dct cv (block_at ch n yx) = Inr D
           \<and> C ! k = quantize D (top_left qm bh bw)
           \<and> idct cv (dequantize (quantize D (top_left qm bh bw)) (top_left qm bh bw)) = Inr I
           \<and> rectangular D bh bw"
    using D I [unfolded Qz] Ck [unfolded Qz] rD by auto
qed

lemma np_round_rule:
  "\<exists>z. np_round v = of_int z \<and> (v - of_int \<lfloor>v\<rfloor> = 1 / 2 \<longrightarrow> even z)"
proof (cases "v - of_int \<lfloor>v\<rfloor> = 1 / 2")
  case True
  then show ?thesis using np_round_tie [of v] by blast
next
  case False
  then show ?thesis using np_round_int [of v] by blast
qed

text \<open>
  C5. Under the library contract and for a level in (0,1], when the run on the store
  returns: the archive has one entry per block, each at an address of its own that is
  not the address of the plane; the array found at the address of entry k \<^emph>\<open>in the
  final store\<close>, after every later statement of the loop has run, is the quantized block,
  whose entries are \<open>np_round (coef / m)\<close> for the entries \<open>m \<ge> 1\<close> of the top-left
  submatrix; \<open>np_round\<close> yields an integer at distance at most 1/2, the even one at a tie;
  the inverse transform is applied to the block with entries \<open>q * m\<close>; and the store
  model computes what \<open>process_channel_dct\<close> returns.
\<close>

theorem archive_holds_rounded_quotients:
  assumes "cv_contract cv n" and "rectangular ch h w" and "0 < h"
    and "0 < level" and "level \<le> 1"
    and "process_blocks_store cv ch n level quantization = Inr (st, pa, coeffs)"
    and "k < length (origins h w n)"
  shows "length coeffs = length (origins h w n) \<and> distinct coeffs \<and> pa \<notin> set coeffs
       \<and> process_channel_dct cv ch n level quantization
            = Inr (map (map astype_uint8) (arrays st pa), map (arrays st) coeffs)
       \<and> (let yx = origins h w n ! k;
              bh = min n (h - fst yx); bw = min n (w - snd yx);
              qm = scaled_q_matrix cv quantization n level;
              qs = top_left qm bh bw
          in \<exists>D I. dct cv (block_at ch n yx) = Inr D
                \<and> arrays st (coeffs ! k) = quantize D qs
                \<and> idct cv (dequantize (quantize D qs) qs) = Inr I
                \<and> (\<forall>i < bh. \<forall>j < bw.
                      1 \<le> qm ! i ! j
                      \<and> quantize D qs ! i ! j = np_round (D ! i ! j / qm ! i ! j)
                      \<and> dequantize (quantize D qs) qs ! i ! j
                          = np_round (D ! i ! j / qm ! i ! j) * qm ! i ! j
                      \<and> \<bar>np_round (D ! i ! j / qm ! i ! j) - D ! i ! j / qm ! i ! j\<bar> \<le> 1 / 2
                      \<and> (\<exists>z. np_round (D ! i ! j / qm ! i ! j) = of_int z
                            \<and> (D ! i ! j / qm ! i ! j - of_int \<lfloor>D ! i ! j / qm ! i ! j\<rfloor> = 1 / 2
                                 \<longrightarrow> even z))))"
proof -
  define yx where "yx = origins h w n ! k"
  define bh bw where "bh = min n (h - fst yx)" and "bw = min n (w - snd yx)"
  define qm where "qm = scaled_q_matrix cv quantization n level"
  define qs where "qs = top_left qm bh bw"
  from process_blocks_store_refines [OF assms(6)]
  have pure: "process_blocks cv ch n level quantization
                = Inr (arrays st pa, map (arrays st) coeffs)"
    and dist: "distinct coeffs" and pa: "pa \<notin> set coeffs" by simp_all
  have chan: "process_channel_dct cv ch n level quantization
            = Inr (map (map astype_uint8) (arrays st pa), map (arrays st) coeffs)"
    unfolding process_channel_dct_def pure by simp
  note arch = process_blocks_archive [OF assms(1-3) pure assms(7)]
  have len: "length coeffs = length (origins h w n)" using arch(1) by simp
  from arch(2) obtain D I where D: "dct cv (block_at ch n yx) = Inr D"
    and Ck: "map (arrays st) coeffs ! k = quantize D qs"
    and I: "idct cv (dequantize (quantize D qs) qs) = Inr I"
    and rD: "rectangular D bh bw"
    unfolding yx_def bh_def bw_def qm_def qs_def by blast
  have Ak: "arrays st (coeffs ! k) = quantize D qs"
    using Ck assms(7) len by simp
  have q: "rectangular qm n n"
    unfolding qm_def using assms(1) by (rule scaled_q_matrix_rectangular)
  have bhn: "bh \<le> n" and bwn: "bw \<le> n" unfolding bh_def bw_def by simp_all
  have rqs: "rectangular qs bh bw"
    unfolding qs_def using q bhn bwn by (rule rectangular_top_left)
  have rQ: "rectangular (quantize D qs) bh bw"
    unfolding quantize_def using rD rqs by (rule rectangular_map2)
  have ent: "1 \<le> qm ! i ! j
        \<and> quantize D qs ! i ! j = np_round (D ! i ! j / qm ! i ! j)
        \<and> dequantize (quantize D qs) qs ! i ! j = np_round (D ! i ! j / qm ! i ! j) * qm ! i ! j
        \<and> \<bar>np_round (D ! i ! j / qm ! i ! j) - D ! i ! j / qm ! i ! j\<bar> \<le> 1 / 2
        \<and> (\<exists>z. np_round (D ! i ! j / qm ! i ! j) = of_int z
              \<and> (D ! i ! j / qm ! i ! j - of_int \<lfloor>D ! i ! j / qm ! i ! j\<rfloor> = 1 / 2
                   \<longrightarrow> even z))"
    if i: "i < bh" and j: "j < bw" for i j
  proof -
    have i': "i < n" and j': "j < n" using i j bhn bwn by simp_all
    have m: "qs ! i ! j = qm ! i ! j"
      unfolding qs_def using q i bhn j bwn by (rule top_left_nth)
    have "1 \<le> qm ! i ! j"
      using scaled_q_matrix_ge_1 [OF assms(4,5)] rectangular_nth_mem [OF q i' j']
      unfolding qm_def by blast
    moreover have "quantize D qs ! i ! j = np_round (D ! i ! j / qm ! i ! j)"
      using quantize_nth [OF rD rqs i j] m by simp
    moreover from this have "dequantize (quantize D qs) qs ! i ! j
        = np_round (D ! i ! j / qm ! i ! j) * qm ! i ! j"
      using dequantize_nth [OF rQ rqs i j] m by simp
    ultimately show ?thesis using np_round_error np_round_rule by blast
  qed
  have blk: "\<exists>D I. dct cv (block_at ch n yx) = Inr D
                \<and> arrays st (coeffs ! k) = quantize D qs
                \<and> idct cv (dequantize (quantize D qs) qs) = Inr I
                \<and> (\<forall>i < bh. \<forall>j < bw.
                      1 \<le> qm ! i ! j
                      \<and> quantize D qs ! i ! j = np_round (D ! i ! j / qm ! i ! j)
                      \<and> dequantize (quantize D qs) qs ! i ! j
                          = np_round (D ! i ! j / qm ! i ! j) * qm ! i ! j
                      \<and> \<bar>np_round (D ! i ! j / qm ! i ! j) - D ! i ! j / qm ! i ! j\<bar> \<le> 1 / 2
                      \<and> (\<exists>z. np_round (D ! i ! j / qm ! i ! j) = of_int z
                            \<and> (D ! i ! j / qm ! i ! j - of_int \<lfloor>D ! i ! j / qm ! i ! j\<rfloor> = 1 / 2
                                 \<longrightarrow> even z)))"
    using D Ak I ent by blast
  show ?thesis
    unfolding Let_def yx_def [symmetric] bh_def [symmetric] bw_def [symmetric]
      qm_def [symmetric] qs_def [symmetric]
    using len dist pa chan blk by blast
qed

lemma not_isl_projr3:
  "\<not> isl s \<Longrightarrow> s = Inr (fst (projr s), fst (snd (projr s)), snd (snd (projr s)))"
  by (cases s) auto

lemma origins_5_6_4: "origins 5 6 4 = [(0, 0), (0, 4), (4, 0), (4, 4)]"
  unfolding origins_def py_range_def by (simp add: upt_rec)

theorem archive_holds_rounded_quotients_witness:
  "cv_contract cv2_doc 4 \<and> rectangular plane_5x6 5 6 \<and> (0::nat) < 5
   \<and> (0::real) < 1 / 2 \<and> (1 / 2 :: real) \<le> 1
   \<and> \<not> isl (process_blocks_store cv2_doc plane_5x6 4 (1 / 2) ''Standard JPEG'')
   \<and> (3::nat) < length (origins 5 6 4)
   \<and> length (snd (snd (projr (process_blocks_store cv2_doc plane_5x6 4 (1 / 2) ''Standard JPEG''))))
        = 4
   \<and> distinct (snd (snd (projr (process_blocks_store cv2_doc plane_5x6 4 (1 / 2) ''Standard JPEG''))))"
proof -
  let ?run = "process_blocks_store cv2_doc plane_5x6 4 (1 / 2) ''Standard JPEG''"
  have ok: "\<not> isl ?run"
    by (rule process_blocks_store_total [OF cv2_doc_never_raises]) simp
  then have run: "?run = Inr (fst (projr ?run), fst (snd (projr ?run)), snd (snd (projr ?run)))"
    by (rule not_isl_projr3)
  have k: "(3::nat) < length (origins 5 6 4)" unfolding origins_5_6_4 by simp
  have h: "(0::nat) < 5" and l: "(0::real) < 1 / 2" "(1 / 2 :: real) \<le> 1" by simp_all
  from archive_holds_rounded_quotients
    [OF cv2_doc_contract rectangular_plane_5x6 h l run k]
  show ?thesis using ok cv2_doc_contract rectangular_plane_5x6 k
    by (simp add: origins_5_6_4)
qed

section \<open>A block that the null compression changes by two\<close>



































































section \<open>The stored compression ratio\<close>

lemma calculate_metrics_ratio:
  assumes "calculate_metrics cv s = Inr s'"
  shows "ratio_of_level (compression_level s) = Inr (compression_ratio s')"
  using assms unfolding calculate_metrics_def
  by (auto split: option.splits sum.splits if_splits)

text \<open>
  C8. For slider values p < q in [1,100] and an image with its reconstruction,
  \<open>calculate_metrics\<close> returns and the compression ratio that it stores is
  1 / (1 + (100 - p) / 100) at p and the like at q; the ratio stored at p is strictly
  below the ratio stored at q, and the ratio stored at 10 is below the ratio stored at 90.
\<close>

theorem computed_compression_ratio_increasing:
  assumes "original_image s = Some a" and "processed_image s = Some b"
    and "is_bgr a h w" and "is_bgr b h w"
    and "1 \<le> p" and "p < q" and "q \<le> 100"
  shows "\<exists>sp sq s10 s90.
           calculate_metrics cv (s\<lparr>compression_level := p\<rparr>) = Inr sp
         \<and> calculate_metrics cv (s\<lparr>compression_level := q\<rparr>) = Inr sq
         \<and> calculate_metrics cv (s\<lparr>compression_level := 10\<rparr>) = Inr s10
         \<and> calculate_metrics cv (s\<lparr>compression_level := 90\<rparr>) = Inr s90
         \<and> compression_ratio sp = 1 / (1 + (100 - real_of_int p) / 100)
         \<and> compression_ratio sq = 1 / (1 + (100 - real_of_int q) / 100)
         \<and> compression_ratio sp < compression_ratio sq
         \<and> compression_ratio s10 < compression_ratio s90"
proof -
  have run: "\<exists>s'. calculate_metrics cv (s\<lparr>compression_level := l\<rparr>) = Inr s'"
    if "l \<noteq> 200" for l
    by (rule calculate_metrics_total [of _ a b h w]) (simp_all add: assms(1-4) that)
  have "p \<noteq> 200" and "q \<noteq> 200" using assms(5-7) by simp_all
  with run obtain sp sq
    where sp: "calculate_metrics cv (s\<lparr>compression_level := p\<rparr>) = Inr sp"
      and sq: "calculate_metrics cv (s\<lparr>compression_level := q\<rparr>) = Inr sq"
    by blast
  from run [of 10] run [of 90] obtain s10 s90
    where s10: "calculate_metrics cv (s\<lparr>compression_level := 10\<rparr>) = Inr s10"
      and s90: "calculate_metrics cv (s\<lparr>compression_level := 90\<rparr>) = Inr s90"
    by auto
  note inc = ratio_of_level_increasing [OF assms(5-7)]
  have rp: "compression_ratio sp = 1 / (1 + (100 - real_of_int p) / 100)"
    using calculate_metrics_ratio [OF sp] inc by simp
  have rq: "compression_ratio sq = 1 / (1 + (100 - real_of_int q) / 100)"
    using calculate_metrics_ratio [OF sq] inc by simp
  have lt: "compression_ratio sp < compression_ratio sq"
    unfolding rp rq using inc by blast
  have "ratio_of_level 10 = Inr (compression_ratio s10)"
    and "ratio_of_level 90 = Inr (compression_ratio s90)"
    using calculate_metrics_ratio [OF s10] calculate_metrics_ratio [OF s90] by simp_all
  then have lt': "compression_ratio s10 < compression_ratio s90"
    using inc by simp
  from sp sq s10 s90 rp rq lt lt' show ?thesis by blast
qed

theorem computed_compression_ratio_increasing_witness:
  "original_image (app0\<lparr>processed_image := Some image_2x2\<rparr>) = Some image_2x2
   \<and> processed_image (app0\<lparr>processed_image := Some image_2x2\<rparr>) = Some image_2x2
   \<and> is_bgr image_2x2 2 2 \<and> (1::int) \<le> 25 \<and> (25::int) < 75 \<and> (75::int) \<le> 100
   \<and> (\<exists>sp sq.
           calculate_metrics cv2_doc
             (app0\<lparr>processed_image := Some image_2x2, compression_level := 25\<rparr>) = Inr sp
         \<and> calculate_metrics cv2_doc
             (app0\<lparr>processed_image := Some image_2x2, compression_level := 75\<rparr>) = Inr sq
         \<and> compression_ratio sp = 4 / 7 \<and> compression_ratio sq = 4 / 5
         \<and> compression_ratio sp < compression_ratio sq)"
proof -
  let ?s = "app0\<lparr>processed_image := Some image_2x2\<rparr>"
  have o: "original_image ?s = Some image_2x2" and p: "processed_image ?s = Some image_2x2"
    by (simp_all add: app0_def)
  have l: "(1::int) \<le> 25" "(25::int) < 75" "(75::int) \<le> 100" by simp_all
  from computed_compression_ratio_increasing
    [OF o p is_bgr_image_2x2 is_bgr_image_2x2 l, of cv2_doc]
  obtain sp sq where "calculate_metrics cv2_doc (?s\<lparr>compression_level := 25\<rparr>) = Inr sp"
    and "calculate_metrics cv2_doc (?s\<lparr>compression_level := 75\<rparr>) = Inr sq"
    and "compression_ratio sp = 1 / (1 + (100 - real_of_int 25) / 100)"
    and "compression_ratio sq = 1 / (1 + (100 - real_of_int 75) / 100)"
    and "compression_ratio sp < compression_ratio sq"
    by blast
  then have "\<exists>sp sq.
           calculate_metrics cv2_doc (?s\<lparr>compression_level := 25\<rparr>) = Inr sp
         \<and> calculate_metrics cv2_doc (?s\<lparr>compression_level := 75\<rparr>) = Inr sq
         \<and> compression_ratio sp = 4 / 7 \<and> compression_ratio sq = 4 / 5
         \<and> compression_ratio sp < compression_ratio sq"
    by (intro exI [of _ sp] exI [of _ sq]) simp
  then show ?thesis using o p is_bgr_image_2x2 by simp
qed

section \<open>An odd clipped block\<close>

lemma cv2_even_contract: "cv_contract cv2_even n"
  unfolding cv_contract_def keeps_shape_def cv2_even_def cv2_doc_def
  by (auto simp: cv_dct_shape cv_idct_shape cv_resize_linear_rectangular split: if_splits)

lemma origins_3_3_4: "origins 3 3 4 = [(0, 0)]"
  unfolding origins_def py_range_def by (simp add: upt_rec)

lemma odd_side_block_3x3: "odd_side (block_at plane_3x3 4 (0, 0))"
  unfolding odd_side_def block_at_def slice2_def plane_3x3_def shape0_def shape1_def
  by simp

lemma block_outcome_3x3: "block_outcome cv2_even plane_3x3 4 qm (0, 0) = Inl CvError"
  unfolding block_outcome_def Let_def
  using odd_side_block_3x3 by (simp add: cv2_even_def cv2_doc_def)

lemma process_blocks_3x3:
  "process_blocks cv2_even plane_3x3 4 level quantization = Inl CvError"
proof -
  have sh: "shape0 plane_3x3 = 3" "shape1 plane_3x3 = 3"
    unfolding shape0_def shape1_def plane_3x3_def by simp_all
  show ?thesis
    unfolding process_blocks_def Let_def sh origins_3_3_4
    by (simp add: block_step_def block_outcome_3x3)
qed

text \<open>
  C6. A plane of 3 rows and 3 columns at block size 4 has one block, clipped to 3 by 3.
  The loop hands it to the transform, which raises on an odd side: the channel
  function returns no plane at all, whatever the level and the policy, so no pixel of
  a reconstructed plane is written; and a run on a 3 by 3 image ends in the failure
  handler with no reconstructed image stored.
\<close>

theorem odd_clipped_block_raises:
  "process_channel_dct cv2_even plane_3x3 4 level quantization = Inl CvError
   \<and> status_message (apply_dct cv2_even (app0\<lparr>original_image := Some image_3x3\<rparr>) 4 ''RGB''
         quantization) = Failed
   \<and> processed_image (apply_dct cv2_even (app0\<lparr>original_image := Some image_3x3\<rparr>) 4 ''RGB''
         quantization) = None"
proof -
  have ch: "process_channel_dct cv2_even plane_3x3 4 level quantization = Inl CvError"
    for level quantization
    unfolding process_channel_dct_def process_blocks_3x3 by simp
  have sh: "shape image_3x3 ! 2 = 3" unfolding image_3x3_def by simp
  have split: "cv_split image_3x3 =
      [[[10, 20, 30], [40, 50, 60], [70, 80, 90]],
       [[11, 21, 31], [41, 51, 61], [71, 81, 91]],
       [[12, 22, 32], [42, 52, 62], [72, 82, 92]]]"
    unfolding image_3x3_def by (simp add: upt_rec)
  have first: "hd (cv_split image_3x3) = plane_3x3"
    unfolding split plane_3x3_def by simp
  let ?s = "app0\<lparr>original_image := Some image_3x3\<rparr>"
  have loop: "channels_loop cv2_even 4 lv quantization 3 (enumerate 0 (cv_split image_3x3))
      ([], [], prog) = (prog, Inl CvError)" for lv prog
    unfolding split using ch [unfolded plane_3x3_def] by simp
  have len: "length (cv_split image_3x3) = 3" unfolding split by simp
  have "apply_dct cv2_even ?s 4 ''RGB'' quantization =
      ?s\<lparr>progress_var := progress_var app0 @ [0, 10, 20], status_message := Failed\<rparr>"
    unfolding apply_dct_def apply_dct_thread_def split_channels_def Let_def
    by (simp add: len loop app0_def)
  then show ?thesis using ch by (simp add: app0_def)
qed

end
